theory Spec2Isabelle
  imports Main "HOL-Library.Word"
begin

unbundle bit_operations_syntax

section \<open>The DEFLATE compressor: constants and data\<close>

text \<open>
  The compressor is the C program with \<^verbatim>\<open>lz77_compress\<close>, \<^verbatim>\<open>write_bits\<close> and
  \<^verbatim>\<open>deflate_compress\<close>. Bytes are \<^typ>\<open>8 word\<close>, the \<^verbatim>\<open>uint32_t\<close> accumulator is a
  \<^typ>\<open>32 word\<close>, \<^verbatim>\<open>size_t\<close> positions are \<^typ>\<open>nat\<close> and C \<^verbatim>\<open>int\<close> values are
  \<^typ>\<open>int\<close>; where a \<^verbatim>\<open>size_t\<close> is stored into an \<^verbatim>\<open>int\<close> the truncation to 32
  bits is written out (\<open>int32_of\<close>).
\<close>

type_synonym byte = "8 word"

definition WINDOW_SIZE :: int where "WINDOW_SIZE = 32768"
definition MIN_MATCH :: int where "MIN_MATCH = 3"
definition MAX_MATCH :: int where "MAX_MATCH = 258"
definition HASH_BITS :: nat where "HASH_BITS = 15"
definition HASH_SIZE :: nat where "HASH_SIZE = 2 ^ HASH_BITS"
definition HASH_MASK :: "32 word" where "HASH_MASK = word_of_nat (HASH_SIZE - 1)"
definition MAX_DIST :: int where "MAX_DIST = 32768"
definition LENGTH_CODES :: nat where "LENGTH_CODES = 29"
definition DIST_CODES :: nat where "DIST_CODES = 30"

text \<open>The conversion of a value to a C \<^verbatim>\<open>int\<close>: the low 32 bits, read as two's complement.\<close>

definition int32_of :: "int \<Rightarrow> int" where
  "int32_of x = sint (word_of_int x :: 32 word)"

subsection \<open>The bit buffer\<close>

text \<open>
  \<open>output_buf\<close> (the field \<^verbatim>\<open>output\<close>) is the heap block of \<^verbatim>\<open>capacity\<close> bytes, a
  function from index to byte.
  \<^verbatim>\<open>malloc\<close> and \<^verbatim>\<open>realloc\<close> leave fresh cells indeterminate: \<^verbatim>\<open>init_bitbuffer\<close> takes
  the contents \<open>mem0\<close> of the fresh block as a parameter. A store at an index that is not
  below \<^verbatim>\<open>capacity\<close> is outside the block: the model returns \<open>None\<close> there. The bit
  counts (the field \<^verbatim>\<open>count\<close> and the argument of \<^verbatim>\<open>write_bits\<close>, C \<^verbatim>\<open>int\<close>s that are
  never negative) and the \<^verbatim>\<open>size_t\<close> fields \<^verbatim>\<open>pos\<close> and \<^verbatim>\<open>capacity\<close> are \<^typ>\<open>nat\<close>.
\<close>

record BitBuffer =
  bits :: "32 word"
  count :: nat
  output_buf :: "nat \<Rightarrow> byte"
  pos :: nat
  capacity :: nat

definition init_bitbuffer :: "(nat \<Rightarrow> byte) \<Rightarrow> nat \<Rightarrow> BitBuffer" where
  "init_bitbuffer mem0 cap =
     \<lparr>bits = 0, count = 0, output_buf = mem0, pos = 0, capacity = cap\<rparr>"

text \<open>\<^verbatim>\<open>bb->output[bb->pos++] = b\<close>\<close>

definition store_byte :: "BitBuffer \<Rightarrow> byte \<Rightarrow> BitBuffer option" where
  "store_byte bb b =
     (if pos bb < capacity bb
      then Some (bb\<lparr>output_buf := (output_buf bb)(pos bb := b), pos := pos bb + 1\<rparr>)
      else None)"

text \<open>The \<^verbatim>\<open>while (bb->count >= 8)\<close> loop of \<^verbatim>\<open>write_bits\<close>.\<close>

function write_bits_loop :: "BitBuffer \<Rightarrow> BitBuffer option" where
  "write_bits_loop bb =
     (if 8 \<le> count bb then
        (let bb1 = (if capacity bb \<le> pos bb then bb\<lparr>capacity := capacity bb * 2\<rparr> else bb)
         in case store_byte bb1 (ucast (bits bb1 AND 0xFF)) of
              None \<Rightarrow> None
            | Some bb2 \<Rightarrow>
                write_bits_loop (bb2\<lparr>bits := drop_bit 8 (bits bb2), count := count bb2 - 8\<rparr>))
      else Some bb)"
  by pat_completeness auto
termination
  by (relation "measure count")
     (auto simp: store_byte_def Let_def split: if_splits)

declare write_bits_loop.simps [simp del]

text \<open>
  \<^verbatim>\<open>write_bits(bb, bits, count)\<close>: the value is shifted above the pending bits and or-ed
  into the 32-bit accumulator (bits shifted beyond bit 31 are lost), then whole bytes
  are stored.
\<close>

definition write_bits :: "BitBuffer \<Rightarrow> 32 word \<Rightarrow> nat \<Rightarrow> BitBuffer option" where
  "write_bits bb v n =
     write_bits_loop (bb\<lparr>bits := bits bb OR push_bit (count bb) v, count := count bb + n\<rparr>)"

text \<open>\<^verbatim>\<open>flush_bits\<close>: one more store when bits are pending, with no capacity check.\<close>

definition flush_bits :: "BitBuffer \<Rightarrow> BitBuffer option" where
  "flush_bits bb =
     (if 0 < count bb then store_byte bb (ucast (bits bb AND 0xFF)) else Some bb)"

text \<open>The bytes \<^verbatim>\<open>fwrite(bb->output, 1, bb->pos, output)\<close> hands to the file.\<close>

definition written :: "BitBuffer \<Rightarrow> byte list" where
  "written bb = map (output_buf bb) [0..<pos bb]"

section \<open>The LZ77 matcher\<close>

text \<open>
  The token struct, as in the source: \<open>literal\<close> is the byte, or \<open>-1\<close> for a
  length/distance pair (\<open>length_tok\<close> is the field \<^verbatim>\<open>length\<close>).
\<close>

record LZ77Token =
  literal :: int
  length_tok :: int
  distance :: int

text \<open>
  \<^verbatim>\<open>hash3(&data[p])\<close>: the bytes are promoted to \<^verbatim>\<open>int\<close>, shifted, combined and masked.
\<close>

definition hash3 :: "byte list \<Rightarrow> nat \<Rightarrow> nat" where
  "hash3 data p =
     unat ((push_bit 10 (ucast (data ! p)) XOR push_bit 5 (ucast (data ! (p + 1)))
            XOR ucast (data ! (p + 2))) AND HASH_MASK)"

text \<open>The innermost loop: \<^verbatim>\<open>while (len < max_len && data[match_pos + len] == data[pos + len]) len++\<close>.\<close>

function match_length :: "byte list \<Rightarrow> nat \<Rightarrow> nat \<Rightarrow> int \<Rightarrow> int \<Rightarrow> int" where
  "match_length data match_pos p max_len len =
     (if len < max_len \<and> data ! (match_pos + nat len) = data ! (p + nat len)
      then match_length data match_pos p max_len (len + 1)
      else len)"
  by pat_completeness auto
termination
  by (relation "measure (\<lambda>(data, match_pos, p, max_len, len). nat (max_len - len))") auto

declare match_length.simps [simp del]

text \<open>
  The hash-chain walk: \<^verbatim>\<open>while (match_pos >= 0 && chain_len < 128)\<close>, carrying
  \<^verbatim>\<open>best_length\<close> and \<^verbatim>\<open>best_distance\<close>. \<open>pv\<close> is the array \<^verbatim>\<open>prev\<close>.
\<close>

function search_chain ::
  "byte list \<Rightarrow> (nat \<Rightarrow> int) \<Rightarrow> nat \<Rightarrow> int \<Rightarrow> nat \<Rightarrow> int \<times> int \<Rightarrow> int \<times> int" where
  "search_chain data pv p match_pos chain_len best =
     (if 0 \<le> match_pos \<and> chain_len < 128 then
        (let dist = int32_of (int p - match_pos) in
         if MAX_DIST < dist \<or> dist \<le> 0 then best
         else
           (let max_len = (if int (length data - p) < MAX_MATCH
                           then int (length data - p) else MAX_MATCH);
                len = match_length data (nat match_pos) p max_len 0;
                best' = (if MIN_MATCH \<le> len \<and> fst best < len then (len, dist) else best)
            in search_chain data pv p (pv (nat match_pos)) (chain_len + 1) best'))
      else best)"
  by pat_completeness auto
termination
  by (relation "measure (\<lambda>(data, pv, p, match_pos, chain_len, best). 128 - chain_len)") auto

declare search_chain.simps [simp del]

text \<open>
  The matcher's variables: the array \<^verbatim>\<open>hash_table\<close> (\<open>HASH_SIZE\<close> cells, all set to
  \<open>-1\<close> first), the array \<^verbatim>\<open>prev\<close> (\<^verbatim>\<open>size\<close> cells, never initialised: its first
  contents are a parameter), the tokens written so far and the position \<^verbatim>\<open>pos\<close>
  (\<open>lz_pos\<close> here, \<open>pos\<close> being the field of the bit buffer).
\<close>

record lz77_state =
  hash_table :: "nat \<Rightarrow> int"
  prev :: "nat \<Rightarrow> int"
  tokens :: "LZ77Token list"
  lz_pos :: nat

definition lz77_init :: "(nat \<Rightarrow> int) \<Rightarrow> lz77_state" where
  "lz77_init prev0 = \<lparr>hash_table = (\<lambda>h. -1), prev = prev0, tokens = [], lz_pos = 0\<rparr>"

text \<open>The search of one position: \<open>(best_length, best_distance)\<close>, \<open>(0, 0)\<close> at first.\<close>

definition find_match :: "byte list \<Rightarrow> lz77_state \<Rightarrow> int \<times> int" where
  "find_match data st =
     (if int (lz_pos st) + MIN_MATCH \<le> int (length data)
      then search_chain data (prev st) (lz_pos st)
             (hash_table st (hash3 data (lz_pos st))) 0 (0, 0)
      else (0, 0))"

text \<open>
  \<^verbatim>\<open>prev[q] = hash_table[h]; hash_table[h] = q\<close> for \<open>h\<close> the hash at \<open>q\<close>; the position
  is stored into an \<^verbatim>\<open>int\<close>.
\<close>

definition insert_hash :: "byte list \<Rightarrow> nat \<Rightarrow> lz77_state \<Rightarrow> lz77_state" where
  "insert_hash data q st =
     (let h = hash3 data q
      in st\<lparr>prev := (prev st)(q := hash_table st h),
            hash_table := (hash_table st)(h := int32_of (int q))\<rparr>)"

text \<open>\<^verbatim>\<open>for (int i = 0; i < best_length && pos + i + 2 < size; i++)\<close>\<close>

function insert_match :: "byte list \<Rightarrow> int \<Rightarrow> nat \<Rightarrow> lz77_state \<Rightarrow> lz77_state" where
  "insert_match data best_length i st =
     (if int i < best_length \<and> lz_pos st + i + 2 < length data
      then insert_match data best_length (i + 1) (insert_hash data (lz_pos st + i) st)
      else st)"
  by pat_completeness auto
termination
  by (relation "measure (\<lambda>(data, best_length, i, st). nat (best_length - int i))") auto

declare insert_match.simps [simp del]

text \<open>One round of the main loop \<^verbatim>\<open>while (pos < size)\<close>.\<close>

definition lz77_step :: "byte list \<Rightarrow> lz77_state \<Rightarrow> lz77_state" where
  "lz77_step data st =
     (let (best_length, best_distance) = find_match data st in
      if MIN_MATCH \<le> best_length then
        (let st1 = st\<lparr>tokens := tokens st @
                      [\<lparr>literal = -1, length_tok = best_length, distance = best_distance\<rparr>]\<rparr>;
             st2 = insert_match data best_length 0 st1
         in st2\<lparr>lz_pos := lz_pos st2 + nat best_length\<rparr>)
      else
        (let st1 = st\<lparr>tokens := tokens st @
                      [\<lparr>literal = uint (data ! lz_pos st), length_tok = 0, distance = 0\<rparr>]\<rparr>;
             st2 = (if lz_pos st1 + 2 < length data then insert_hash data (lz_pos st1) st1
                    else st1)
         in st2\<lparr>lz_pos := lz_pos st2 + 1\<rparr>))"

lemma lz_pos_insert_hash: "lz_pos (insert_hash data q st) = lz_pos st"
  by (simp add: insert_hash_def Let_def)

lemma lz_pos_insert_match: "lz_pos (insert_match data bl i st) = lz_pos st"
proof (induction data bl i st rule: insert_match.induct)
  case (1 data bl i st)
  show ?case
  proof (cases "int i < bl \<and> lz_pos st + i + 2 < length data")
    case True
    then show ?thesis
      using "1.IH" by (subst insert_match.simps) (simp add: lz_pos_insert_hash)
  next
    case False
    then show ?thesis
      by (subst insert_match.simps) auto
  qed
qed

lemma lz_pos_lz77_step:
  "lz_pos (lz77_step data st) =
     lz_pos st + (if MIN_MATCH \<le> fst (find_match data st)
                  then nat (fst (find_match data st)) else 1)"
  by (simp add: lz77_step_def Let_def split_beta lz_pos_insert_match lz_pos_insert_hash)

lemma lz77_step_advances: "lz_pos st < lz_pos (lz77_step data st)"
  by (simp add: lz_pos_lz77_step MIN_MATCH_def)

function lz77_loop :: "byte list \<Rightarrow> lz77_state \<Rightarrow> lz77_state" where
  "lz77_loop data st =
     (if lz_pos st < length data then lz77_loop data (lz77_step data st) else st)"
  by pat_completeness auto
termination
proof (relation "measure (\<lambda>(data, st). length data - lz_pos st)")
  show "wf (measure (\<lambda>(data, st). length data - lz_pos st))"
    by simp
next
  fix data :: "byte list" and st :: lz77_state
  assume "lz_pos st < length data"
  then show "((data, lz77_step data st), (data, st))
               \<in> measure (\<lambda>(data, st). length data - lz_pos st)"
    using lz77_step_advances [of st data] by simp
qed

declare lz77_loop.simps [simp del]

text \<open>\<^verbatim>\<open>lz77_compress(data, size, &token_count)\<close>: the token array it returns.\<close>

definition lz77_compress :: "(nat \<Rightarrow> int) \<Rightarrow> byte list \<Rightarrow> LZ77Token list" where
  "lz77_compress prev0 data = tokens (lz77_loop data (lz77_init prev0))"

section \<open>The code tables\<close>

definition length_base :: "int list" where
  "length_base =
     [3, 4, 5, 6, 7, 8, 9, 10, 11, 13, 15, 17, 19, 23, 27, 31,
      35, 43, 51, 59, 67, 83, 99, 115, 131, 163, 195, 227, 258]"

definition length_extra :: "int list" where
  "length_extra =
     [0, 0, 0, 0, 0, 0, 0, 0, 1, 1, 1, 1, 2, 2, 2, 2,
      3, 3, 3, 3, 4, 4, 4, 4, 5, 5, 5, 5, 0]"

definition dist_base :: "int list" where
  "dist_base =
     [1, 2, 3, 4, 5, 7, 9, 13, 17, 25, 33, 49, 65, 97, 129, 193,
      257, 385, 513, 769, 1025, 1537, 2049, 3073, 4097, 6145,
      8193, 12289, 16385, 24577]"

definition dist_extra :: "int list" where
  "dist_extra =
     [0, 0, 0, 0, 1, 1, 2, 2, 3, 3, 4, 4, 5, 5, 6, 6,
      7, 7, 8, 8, 9, 9, 10, 10, 11, 11, 12, 12, 13, 13]"

text \<open>
  \<^verbatim>\<open>get_length_code\<close> writes \<open>(code, extra_bits, extra_value)\<close> through its three
  pointers and returns at the first index whose range holds the length; when the loop
  ends without one it writes nothing, which is \<open>None\<close> here.
\<close>

function get_length_code_loop :: "int \<Rightarrow> nat \<Rightarrow> (int \<times> int \<times> int) option" where
  "get_length_code_loop len i =
     (if i < LENGTH_CODES then
        (if length_base ! i \<le> len \<and> (i = LENGTH_CODES - 1 \<or> len < length_base ! (i + 1))
         then Some (257 + int i, length_extra ! i, len - length_base ! i)
         else get_length_code_loop len (i + 1))
      else None)"
  by pat_completeness auto
termination
  by (relation "measure (\<lambda>(len, i). LENGTH_CODES - i)") auto

declare get_length_code_loop.simps [simp del]

definition get_length_code :: "int \<Rightarrow> (int \<times> int \<times> int) option" where
  "get_length_code len = get_length_code_loop len 0"

function get_distance_code_loop :: "int \<Rightarrow> nat \<Rightarrow> (int \<times> int \<times> int) option" where
  "get_distance_code_loop d i =
     (if i < DIST_CODES then
        (if dist_base ! i \<le> d \<and> (i = DIST_CODES - 1 \<or> d < dist_base ! (i + 1))
         then Some (int i, dist_extra ! i, d - dist_base ! i)
         else get_distance_code_loop d (i + 1))
      else None)"
  by pat_completeness auto
termination
  by (relation "measure (\<lambda>(d, i). DIST_CODES - i)") auto

declare get_distance_code_loop.simps [simp del]

definition get_distance_code :: "int \<Rightarrow> (int \<times> int \<times> int) option" where
  "get_distance_code d = get_distance_code_loop d 0"

section \<open>The block encoder\<close>

text \<open>
  The loop \<^verbatim>\<open>for (j = 0; j < 5; j++) if (dist_code & (1 << j)) reversed_dist |= (1 << (4 - j))\<close>
  on a \<^verbatim>\<open>uint8_t\<close>.
\<close>

definition reverse_dist :: "int \<Rightarrow> byte" where
  "reverse_dist dist_code =
     fold (\<lambda>j r. if dist_code AND push_bit j 1 \<noteq> 0 then r OR push_bit (4 - j) 1 else r)
       [0..<5] 0"

text \<open>
  The caller sets \<^verbatim>\<open>code\<close>, \<^verbatim>\<open>extra_bits\<close> and \<^verbatim>\<open>extra_value\<close> to 0 before each lookup,
  so a lookup that writes nothing leaves \<open>(0, 0, 0)\<close>.
\<close>

definition code_or_zero :: "(int \<times> int \<times> int) option \<Rightarrow> int \<times> int \<times> int" where
  "code_or_zero r = (case r of None \<Rightarrow> (0, 0, 0) | Some c \<Rightarrow> c)"

text \<open>The body of the loop over the tokens in \<^verbatim>\<open>deflate_compress\<close>.\<close>

definition encode_token :: "BitBuffer \<Rightarrow> LZ77Token \<Rightarrow> BitBuffer option" where
  "encode_token bb t =
     (if 0 \<le> literal t then
        (let lit = literal t in
         if lit \<le> 143 then write_bits bb (word_of_int (0x30 + lit)) 8
         else write_bits bb (word_of_int (0x190 + (lit - 144))) 9)
      else
        (case code_or_zero (get_length_code (length_tok t)) of
           (len_code, len_extra_bits, len_extra_value) \<Rightarrow>
        (case (if len_code \<le> 279 then write_bits bb (word_of_int (len_code - 256)) 7
               else write_bits bb (word_of_int (0xC0 + (len_code - 280))) 8) of
           None \<Rightarrow> None
         | Some bb1 \<Rightarrow>
        (case (if 0 < len_extra_bits
               then write_bits bb1 (word_of_int len_extra_value) (nat len_extra_bits)
               else Some bb1) of
           None \<Rightarrow> None
         | Some bb2 \<Rightarrow>
        (case code_or_zero (get_distance_code (distance t)) of
           (dist_code, dist_extra_bits, dist_extra_value) \<Rightarrow>
        (case write_bits bb2 (ucast (reverse_dist dist_code)) 5 of
           None \<Rightarrow> None
         | Some bb3 \<Rightarrow>
             (if 0 < dist_extra_bits
              then write_bits bb3 (word_of_int dist_extra_value) (nat dist_extra_bits)
              else Some bb3)))))))"

fun encode_tokens :: "BitBuffer \<Rightarrow> LZ77Token list \<Rightarrow> BitBuffer option" where
  "encode_tokens bb [] = Some bb"
| "encode_tokens bb (t # ts) =
     (case encode_token bb t of None \<Rightarrow> None | Some bb' \<Rightarrow> encode_tokens bb' ts)"

text \<open>
  The encoder of \<^verbatim>\<open>deflate_compress\<close>, from \<^verbatim>\<open>init_bitbuffer\<close> to the end-of-block
  code: the header, the tokens, the seven zero bits of symbol 256. The Huffman trees the
  function builds before are never read by the encoder and are left out.
\<close>

definition deflate_packed :: "(nat \<Rightarrow> byte) \<Rightarrow> nat \<Rightarrow> LZ77Token list \<Rightarrow> BitBuffer option" where
  "deflate_packed mem0 input_size toks =
     (let buffer_size = (if 1024 < input_size * 2 then input_size * 2 else 1024);
          bb = init_bitbuffer mem0 buffer_size
      in case write_bits bb 1 1 of None \<Rightarrow> None | Some bb1 \<Rightarrow>
        (case write_bits bb1 1 2 of None \<Rightarrow> None | Some bb2 \<Rightarrow>
        (case encode_tokens bb2 toks of None \<Rightarrow> None | Some bb3 \<Rightarrow>
           write_bits bb3 0 7)))"

text \<open>The whole block: the pack sequence, then \<^verbatim>\<open>flush_bits\<close>.\<close>

definition deflate_block :: "(nat \<Rightarrow> byte) \<Rightarrow> nat \<Rightarrow> LZ77Token list \<Rightarrow> BitBuffer option" where
  "deflate_block mem0 input_size toks =
     (case deflate_packed mem0 input_size toks of None \<Rightarrow> None | Some bb4 \<Rightarrow> flush_bits bb4)"

text \<open>
  The tokens of an input: \<^verbatim>\<open>lz77_compress\<close> is called only \<^verbatim>\<open>if (input_size > 0)\<close>.
\<close>

definition input_tokens :: "(nat \<Rightarrow> int) \<Rightarrow> byte list \<Rightarrow> LZ77Token list" where
  "input_tokens prev0 data = (if 0 < length data then lz77_compress prev0 data else [])"

definition compress_buffer :: "(nat \<Rightarrow> int) \<Rightarrow> (nat \<Rightarrow> byte) \<Rightarrow> byte list \<Rightarrow> BitBuffer option" where
  "compress_buffer prev0 mem0 data =
     deflate_block mem0 (length data) (input_tokens prev0 data)"

text \<open>The compressed bytes of an input: what reaches the output file.\<close>

definition compress_bytes :: "(nat \<Rightarrow> int) \<Rightarrow> (nat \<Rightarrow> byte) \<Rightarrow> byte list \<Rightarrow> byte list option" where
  "compress_bytes prev0 mem0 data = map_option written (compress_buffer prev0 mem0 data)"

section \<open>The command: files and exit codes\<close>

text \<open>
  What the C library answers to \<^verbatim>\<open>deflate_compress\<close>: whether each \<^verbatim>\<open>fopen\<close> succeeds,
  the content of the input file (\<^verbatim>\<open>ftell\<close> gives its length), how many bytes \<^verbatim>\<open>fread\<close>
  delivers, and how many of the bytes handed to \<^verbatim>\<open>fwrite\<close> reach the output file.
\<close>

record io_world =
  input_opens :: bool
  input_file :: "byte list"
  fread_count :: nat
  output_opens :: bool
  fwrite_count :: nat

text \<open>
  \<^verbatim>\<open>deflate_compress\<close>: the exit code and the content of the output file (\<open>None\<close> when
  the file was never opened for writing). The result of \<^verbatim>\<open>fwrite\<close> is not looked at. The
  outer \<open>None\<close> is a store outside the bit buffer.
\<close>

definition deflate_compress ::
  "(nat \<Rightarrow> int) \<Rightarrow> (nat \<Rightarrow> byte) \<Rightarrow> io_world \<Rightarrow> (int \<times> byte list option) option" where
  "deflate_compress prev0 mem0 w =
     (if \<not> input_opens w then Some (1, None)
      else
        (let input_size = length (input_file w) in
         if 0 < input_size \<and> fread_count w \<noteq> input_size then Some (1, None)
         else
           (case compress_buffer prev0 mem0 (input_file w) of
              None \<Rightarrow> None
            | Some bb \<Rightarrow>
                if \<not> output_opens w then Some (1, None)
                else Some (0, Some (take (fwrite_count w) (written bb))))))"

section \<open>The bit writer: what a sequence of calls leaves in the buffer\<close>

text \<open>
  The bits of a value and of the output, least significant first: \<open>value_bits v n\<close> are
  the low \<open>n\<close> bits of \<open>v\<close>, \<open>bytes_bits bs\<close> the bits of a byte sequence in stream order.
\<close>


definition value_bits :: "32 word \<Rightarrow> nat \<Rightarrow> bool list" where
  "value_bits v n = map (bit v) [0..<n]"

definition byte_bits :: "byte \<Rightarrow> bool list" where
  "byte_bits b = map (bit b) [0..<8]"

lemma mask_0xFF: "(0xFF :: 32 word) = mask 8"
  by (simp add: mask_eq_exp_minus_1)

lemma low_byte_bit: "k < 8 \<Longrightarrow> bit (ucast (w AND 0xFF :: 32 word) :: byte) k = bit w k"
  unfolding mask_0xFF by (simp add: bit_simps)

lemma upt_split8: "8 \<le> c \<Longrightarrow> [0..<c] = [0..<8] @ map (\<lambda>k. k + 8) [0..<c - 8]"
  by (metis add.commute add_0 le_add_diff_inverse map_add_upt upt_add_eq_append zero_le)

lemma value_bits_split:
  assumes c: "8 \<le> c"
  shows "value_bits w c = byte_bits (ucast (w AND 0xFF)) @ value_bits (drop_bit 8 w) (c - 8)"
proof -
  have b: "map (bit w) [0..<8] = map (bit (ucast (w AND 0xFF) :: byte)) [0..<8]"
    by (rule map_cong) (simp_all add: low_byte_bit)
  have d: "map (bit w) (map (\<lambda>k. k + 8) [0..<c - 8]) = map (bit (drop_bit 8 w)) [0..<c - 8]"
    by (simp add: bit_drop_bit_eq o_def add.commute [of 8])
  show ?thesis
    unfolding value_bits_def byte_bits_def upt_split8 [OF c] map_append b d ..
qed

definition bytes_bits :: "byte list \<Rightarrow> bool list" where
  "bytes_bits bs = concat (map byte_bits bs)"

text \<open>
  A usable buffer: the block is not empty and \<^verbatim>\<open>pos\<close> is not beyond it, so that doubling
  the capacity makes room for the next store.
\<close>

definition bb_ok :: "BitBuffer \<Rightarrow> bool" where
  "bb_ok bb = (0 < capacity bb \<and> pos bb \<le> capacity bb)"

lemma write_bits_loop_spec:
  "bb_ok bb \<Longrightarrow>
   \<exists>bb'. write_bits_loop bb = Some bb' \<and> bb_ok bb' \<and> count bb' < 8 \<and>
     8 * pos bb' + count bb' = 8 * pos bb + count bb \<and>
     capacity bb \<le> capacity bb' \<and>
     drop_bit (count bb') (bits bb') = drop_bit (count bb) (bits bb) \<and>
     bytes_bits (written bb') @ value_bits (bits bb') (count bb') =
       bytes_bits (written bb) @ value_bits (bits bb) (count bb)"
proof (induction bb rule: write_bits_loop.induct)
  case (1 bb)
  show ?case
  proof (cases "8 \<le> count bb")
    case False
    have "write_bits_loop bb = Some bb"
      using False by (subst write_bits_loop.simps) simp
    then show ?thesis using "1.prems" False
      by simp
  next
    case True
    define bb1 where "bb1 = (if capacity bb \<le> pos bb then bb\<lparr>capacity := capacity bb * 2\<rparr> else bb)"
    have lt: "pos bb1 < capacity bb1"
      using "1.prems" by (cases "capacity bb \<le> pos bb") (simp_all add: bb1_def bb_ok_def)
    have cap1: "capacity bb \<le> capacity bb1"
      by (simp add: bb1_def)
    define bb2 where "bb2 = bb1\<lparr>output_buf := (output_buf bb1)(pos bb1 := ucast (bits bb1 AND 0xFF)), pos := pos bb1 + 1\<rparr>"
    have st: "store_byte bb1 (ucast (bits bb1 AND 0xFF)) = Some bb2"
      using lt by (simp add: store_byte_def bb2_def)
    define bb3 where "bb3 = bb2\<lparr>bits := drop_bit 8 (bits bb2), count := count bb2 - 8\<rparr>"
    have ok3: "bb_ok bb3"
      using lt by (simp add: bb_ok_def bb3_def bb2_def)
    from "1.IH" [OF True bb1_def st, folded bb3_def, OF ok3]
    obtain bb' where r: "write_bits_loop bb3 = Some bb'" "bb_ok bb'" "count bb' < 8"
      "8 * pos bb' + count bb' = 8 * pos bb3 + count bb3"
      "capacity bb3 \<le> capacity bb'"
      "drop_bit (count bb') (bits bb') = drop_bit (count bb3) (bits bb3)"
      "bytes_bits (written bb') @ value_bits (bits bb') (count bb') =
         bytes_bits (written bb3) @ value_bits (bits bb3) (count bb3)"
      by blast
    have f: "count bb3 = count bb - 8" "pos bb3 = pos bb + 1" "bits bb3 = drop_bit 8 (bits bb)"
      "capacity bb3 = capacity bb1" "written bb3 = written bb @ [ucast (bits bb AND 0xFF)]"
      by (simp_all add: bb3_def bb2_def bb1_def written_def)
    have unf: "write_bits_loop bb = Some bb'"
      using True st r(1) by (subst write_bits_loop.simps) (simp add: bb1_def [symmetric] bb3_def)
    have p: "8 * pos bb' + count bb' = 8 * pos bb + count bb"
      using r(4) True unfolding f by arith
    have q: "capacity bb \<le> capacity bb'"
      using r(5) cap1 unfolding f by linarith
    have d: "drop_bit (count bb') (bits bb') = drop_bit (count bb) (bits bb)"
      using True unfolding r(6) f drop_bit_drop_bit by simp
    have e: "bytes_bits (written bb') @ value_bits (bits bb') (count bb') =
       bytes_bits (written bb) @ value_bits (bits bb) (count bb)"
      unfolding r(7) f value_bits_split [OF True, of "bits bb"] by (simp add: bytes_bits_def)
    show ?thesis
      using unf r(2,3) p q d e by blast
  qed
qed













lemma write_bits_spec:
  assumes ok: "bb_ok bb"
  shows "\<exists>bb'. write_bits bb v n = Some bb' \<and> bb_ok bb' \<and> count bb' < 8 \<and>
     8 * pos bb' + count bb' = 8 * pos bb + count bb + n \<and>
     capacity bb \<le> capacity bb' \<and>
     drop_bit (count bb') (bits bb') = drop_bit (count bb + n) (bits bb OR push_bit (count bb) v) \<and>
     bytes_bits (written bb') @ value_bits (bits bb') (count bb') =
       bytes_bits (written bb) @ value_bits (bits bb OR push_bit (count bb) v) (count bb + n)"
proof -
  define bb0 where "bb0 = bb\<lparr>bits := bits bb OR push_bit (count bb) v, count := count bb + n\<rparr>"
  have ok0: "bb_ok bb0"
    using ok by (simp add: bb0_def bb_ok_def)
  have f: "pos bb0 = pos bb" "count bb0 = count bb + n" "capacity bb0 = capacity bb"
    "bits bb0 = bits bb OR push_bit (count bb) v" "written bb0 = written bb"
    by (simp_all add: bb0_def written_def)
  from write_bits_loop_spec [OF ok0] obtain bb' where
    r: "write_bits_loop bb0 = Some bb'" "bb_ok bb'" "count bb' < 8"
     "8 * pos bb' + count bb' = 8 * pos bb0 + count bb0"
     "capacity bb0 \<le> capacity bb'"
     "drop_bit (count bb') (bits bb') = drop_bit (count bb0) (bits bb0)"
     "bytes_bits (written bb') @ value_bits (bits bb') (count bb') =
       bytes_bits (written bb0) @ value_bits (bits bb0) (count bb0)"
    by blast
  have w: "write_bits bb v n = Some bb'"
    unfolding write_bits_def bb0_def [symmetric] by (rule r(1))
  have p: "8 * pos bb' + count bb' = 8 * pos bb + count bb + n"
    unfolding r(4) f by simp
  show ?thesis
    using w r(2,3) p r(5-7) unfolding f by blast
qed












lemma flush_bits_Some: "pos bb < capacity bb \<Longrightarrow> flush_bits bb \<noteq> None"
  by (simp add: flush_bits_def store_byte_def)












text \<open>
  C8. A zero-length input gives no token and exactly the two bytes \<open>0x03 0x00\<close>: the bit
  1 (\<^verbatim>\<open>BFINAL\<close>), the two bits of 1 (\<^verbatim>\<open>BTYPE\<close>), the seven zero bits of the end-of-block
  code, and six zero bits up to the byte boundary.
\<close>

theorem compress_empty_input:
  "input_tokens prev0 [] = [] \<and> lz77_compress prev0 [] = [] \<and>
   compress_bytes prev0 mem0 [] = Some [0x03, 0x00] \<and>
   bytes_bits [0x03, 0x00] =
     value_bits 1 1 @ value_bits 1 2 @ value_bits 0 7 @ replicate 6 False"
proof -
  have a: "input_tokens prev0 [] = []"
    by (simp add: input_tokens_def)
  have b: "lz77_compress prev0 [] = []"
    by (simp add: lz77_compress_def lz77_loop.simps lz77_init_def)
  have c: "compress_bytes prev0 mem0 [] = Some [0x03, 0x00]"
    by (simp add: compress_bytes_def compress_buffer_def deflate_block_def deflate_packed_def a
        init_bitbuffer_def write_bits_def write_bits_loop.simps store_byte_def
        flush_bits_def written_def Let_def)
  have d: "bytes_bits [0x03, 0x00] =
     value_bits 1 1 @ value_bits 1 2 @ value_bits 0 7 @ replicate 6 False"
    by code_simp
  show ?thesis
    using a b c d by blast
qed

section \<open>The code tables: the range lookup\<close>


text \<open>The index test of both lookup loops, over a table \<open>base\<close> of \<open>n\<close> entries.\<close>

definition in_range :: "int list \<Rightarrow> nat \<Rightarrow> int \<Rightarrow> nat \<Rightarrow> bool" where
  "in_range base n x i = (base ! i \<le> x \<and> (i = n - 1 \<or> x < base ! (i + 1)))"

lemma length_base_sorted: "sorted_wrt (<) length_base"
  by (simp add: length_base_def)

lemma dist_base_sorted: "sorted_wrt (<) dist_base"
  by (simp add: dist_base_def)

lemma in_range_unique:
  assumes s: "sorted_wrt (<) base" and n: "length base = n"
    and i: "i < n" "in_range base n x i" and j: "j < n" "in_range base n x j"
  shows "i = j"
proof -
  have no: "\<And>a b. a < b \<Longrightarrow> b < n \<Longrightarrow> in_range base n x a \<Longrightarrow> \<not> in_range base n x b"
  proof
    fix a b assume ab: "a < b" and b: "b < n" and ra: "in_range base n x a" and rb: "in_range base n x b"
    from ab b have "a \<noteq> n - 1" by simp
    with ra have 1: "x < base ! (a + 1)" by (simp add: in_range_def)
    have 2: "base ! (a + 1) \<le> base ! b"
    proof (cases "a + 1 = b")
      case True then show ?thesis by simp
    next
      case False
      with ab have "a + 1 < b" by simp
      then show ?thesis
        using sorted_wrt_nth_less [OF s, of "a + 1" b] b n by simp
    qed
    from rb have "base ! b \<le> x" by (simp add: in_range_def)
    with 1 2 show False by simp
  qed
  show ?thesis
  proof (rule ccontr)
    assume "i \<noteq> j"
    then consider "i < j" | "j < i" by linarith
    then show False
      using no [of i j] no [of j i] i j by cases auto
  qed
qed

lemma get_length_code_loop_finds:
  "i < LENGTH_CODES \<Longrightarrow> length_base ! i \<le> len \<Longrightarrow>
   \<exists>j. j < LENGTH_CODES \<and> in_range length_base LENGTH_CODES len j \<and>
       get_length_code_loop len i = Some (257 + int j, length_extra ! j, len - length_base ! j)"
proof (induction len i rule: get_length_code_loop.induct)
  case (1 len i)
  show ?case
  proof (cases "in_range length_base LENGTH_CODES len i")
    case True
    then have "get_length_code_loop len i = Some (257 + int i, length_extra ! i, len - length_base ! i)"
      using "1.prems"(1) by (subst get_length_code_loop.simps) (simp add: in_range_def)
    with True "1.prems"(1) show ?thesis by blast
  next
    case False
    with "1.prems" have ne: "i \<noteq> LENGTH_CODES - 1" and nx: "length_base ! (i + 1) \<le> len"
      by (auto simp: in_range_def)
    from ne "1.prems"(1) have lt: "i + 1 < LENGTH_CODES" by simp
    have nc: "\<not> (length_base ! i \<le> len \<and> (i = LENGTH_CODES - 1 \<or> len < length_base ! (i + 1)))"
      using False by (simp add: in_range_def)
    from "1.IH" [OF "1.prems"(1) nc lt nx] obtain j where
      j: "j < LENGTH_CODES" "in_range length_base LENGTH_CODES len j"
         "get_length_code_loop len (i + 1) = Some (257 + int j, length_extra ! j, len - length_base ! j)"
      by blast
    have "get_length_code_loop len i = get_length_code_loop len (i + 1)"
      by (subst get_length_code_loop.simps) (simp only: "1.prems"(1) nc if_True if_False)
    with j show ?thesis by auto
  qed
qed

lemma get_distance_code_loop_finds:
  "i < DIST_CODES \<Longrightarrow> dist_base ! i \<le> d \<Longrightarrow>
   \<exists>j. j < DIST_CODES \<and> in_range dist_base DIST_CODES d j \<and>
       get_distance_code_loop d i = Some (int j, dist_extra ! j, d - dist_base ! j)"
proof (induction d i rule: get_distance_code_loop.induct)
  case (1 d i)
  show ?case
  proof (cases "in_range dist_base DIST_CODES d i")
    case True
    then have "get_distance_code_loop d i = Some (int i, dist_extra ! i, d - dist_base ! i)"
      using "1.prems"(1) by (subst get_distance_code_loop.simps) (simp add: in_range_def)
    with True "1.prems"(1) show ?thesis by blast
  next
    case False
    with "1.prems" have ne: "i \<noteq> DIST_CODES - 1" and nx: "dist_base ! (i + 1) \<le> d"
      by (auto simp: in_range_def)
    from ne "1.prems"(1) have lt: "i + 1 < DIST_CODES" by simp
    have nc: "\<not> (dist_base ! i \<le> d \<and> (i = DIST_CODES - 1 \<or> d < dist_base ! (i + 1)))"
      using False by (simp add: in_range_def)
    from "1.IH" [OF "1.prems"(1) nc lt nx] obtain j where
      j: "j < DIST_CODES" "in_range dist_base DIST_CODES d j"
         "get_distance_code_loop d (i + 1) = Some (int j, dist_extra ! j, d - dist_base ! j)"
      by blast
    have "get_distance_code_loop d i = get_distance_code_loop d (i + 1)"
      by (subst get_distance_code_loop.simps) (simp only: "1.prems"(1) nc if_True if_False)
    with j show ?thesis by auto
  qed
qed

lemma get_length_code_range:
  assumes "3 \<le> len"
  shows "\<exists>j. j < LENGTH_CODES \<and> in_range length_base LENGTH_CODES len j \<and>
           (\<forall>k. k < LENGTH_CODES \<and> in_range length_base LENGTH_CODES len k \<longrightarrow> k = j) \<and>
           get_length_code len = Some (257 + int j, length_extra ! j, len - length_base ! j)"
proof -
  have 0: "0 < LENGTH_CODES" "length_base ! 0 \<le> len"
    using assms by (simp_all add: LENGTH_CODES_def length_base_def)
  from get_length_code_loop_finds [OF 0] obtain j where
    j: "j < LENGTH_CODES" "in_range length_base LENGTH_CODES len j"
       "get_length_code len = Some (257 + int j, length_extra ! j, len - length_base ! j)"
    unfolding get_length_code_def by blast
  have n: "length length_base = LENGTH_CODES"
    by (simp add: length_base_def LENGTH_CODES_def)
  have "\<forall>k. k < LENGTH_CODES \<and> in_range length_base LENGTH_CODES len k \<longrightarrow> k = j"
    using in_range_unique [OF length_base_sorted n _ _ j(1,2)] by blast
  with j show ?thesis by blast
qed

lemma get_distance_code_range:
  assumes "1 \<le> d"
  shows "\<exists>j. j < DIST_CODES \<and> in_range dist_base DIST_CODES d j \<and>
           (\<forall>k. k < DIST_CODES \<and> in_range dist_base DIST_CODES d k \<longrightarrow> k = j) \<and>
           get_distance_code d = Some (int j, dist_extra ! j, d - dist_base ! j)"
proof -
  have 0: "0 < DIST_CODES" "dist_base ! 0 \<le> d"
    using assms by (simp_all add: DIST_CODES_def dist_base_def)
  from get_distance_code_loop_finds [OF 0] obtain j where
    j: "j < DIST_CODES" "in_range dist_base DIST_CODES d j"
       "get_distance_code d = Some (int j, dist_extra ! j, d - dist_base ! j)"
    unfolding get_distance_code_def by blast
  have n: "length dist_base = DIST_CODES"
    by (simp add: dist_base_def DIST_CODES_def)
  have "\<forall>k. k < DIST_CODES \<and> in_range dist_base DIST_CODES d k \<longrightarrow> k = j"
    using in_range_unique [OF dist_base_sorted n _ _ j(1,2)] by blast
  with j show ?thesis by blast
qed


text \<open>
  C5. For every length from 3 to 258, \<^verbatim>\<open>get_length_code\<close> returns
  \<open>(257 + i, length_extra[i], length - length_base[i])\<close> for the one index \<open>i\<close> with
  \<open>length_base[i] \<le> length\<close> and (\<open>i\<close> last or \<open>length < length_base[i + 1]\<close>); for every
  distance from 1 to 32768, \<^verbatim>\<open>get_distance_code\<close> returns
  \<open>(i, dist_extra[i], distance - dist_base[i])\<close> for the one such index of the distance
  table; and the four tables are the constants the specification lists.
\<close>

theorem code_tables_lookup:
  "(3 \<le> len \<and> len \<le> 258 \<longrightarrow>
      (\<exists>i. i < LENGTH_CODES \<and> in_range length_base LENGTH_CODES len i \<and>
         (\<forall>k. k < LENGTH_CODES \<and> in_range length_base LENGTH_CODES len k \<longrightarrow> k = i) \<and>
         get_length_code len = Some (257 + int i, length_extra ! i, len - length_base ! i))) \<and>
   (1 \<le> d \<and> d \<le> 32768 \<longrightarrow>
      (\<exists>i. i < DIST_CODES \<and> in_range dist_base DIST_CODES d i \<and>
         (\<forall>k. k < DIST_CODES \<and> in_range dist_base DIST_CODES d k \<longrightarrow> k = i) \<and>
         get_distance_code d = Some (int i, dist_extra ! i, d - dist_base ! i))) \<and>
   length_base =
     [3, 4, 5, 6, 7, 8, 9, 10, 11, 13, 15, 17, 19, 23, 27, 31, 35, 43, 51, 59, 67, 83, 99,
      115, 131, 163, 195, 227, 258] \<and>
   length_extra =
     [0, 0, 0, 0, 0, 0, 0, 0, 1, 1, 1, 1, 2, 2, 2, 2, 3, 3, 3, 3, 4, 4, 4, 4, 5, 5, 5, 5, 0] \<and>
   dist_base =
     [1, 2, 3, 4, 5, 7, 9, 13, 17, 25, 33, 49, 65, 97, 129, 193, 257, 385, 513, 769, 1025,
      1537, 2049, 3073, 4097, 6145, 8193, 12289, 16385, 24577] \<and>
   dist_extra =
     [0, 0, 0, 0, 1, 1, 2, 2, 3, 3, 4, 4, 5, 5, 6, 6, 7, 7, 8, 8, 9, 9, 10, 10, 11, 11, 12,
      12, 13, 13] \<and>
   length length_base = LENGTH_CODES \<and> length dist_base = DIST_CODES"
proof -
  have a: "3 \<le> len \<and> len \<le> 258 \<longrightarrow>
      (\<exists>i. i < LENGTH_CODES \<and> in_range length_base LENGTH_CODES len i \<and>
         (\<forall>k. k < LENGTH_CODES \<and> in_range length_base LENGTH_CODES len k \<longrightarrow> k = i) \<and>
         get_length_code len = Some (257 + int i, length_extra ! i, len - length_base ! i))"
    using get_length_code_range [of len] by blast
  have b: "1 \<le> d \<and> d \<le> 32768 \<longrightarrow>
      (\<exists>i. i < DIST_CODES \<and> in_range dist_base DIST_CODES d i \<and>
         (\<forall>k. k < DIST_CODES \<and> in_range dist_base DIST_CODES d k \<longrightarrow> k = i) \<and>
         get_distance_code d = Some (int i, dist_extra ! i, d - dist_base ! i))"
    using get_distance_code_range [of d] by blast
  show ?thesis
    using a b
    by (simp only: length_base_def length_extra_def dist_base_def dist_extra_def
        LENGTH_CODES_def DIST_CODES_def) simp
qed

theorem code_tables_lookup_witness:
  "3 \<le> (258 :: int) \<and> (258 :: int) \<le> 258 \<and> 1 \<le> (32768 :: int) \<and> (32768 :: int) \<le> 32768 \<and>
   get_length_code 258 = Some (285, 0, 0) \<and> get_distance_code 32768 = Some (29, 13, 8191)"
proof -
  from code_tables_lookup [of 258 32768] obtain i j where
    i: "\<forall>k. k < LENGTH_CODES \<and> in_range length_base LENGTH_CODES 258 k \<longrightarrow> k = i"
       "get_length_code 258 = Some (257 + int i, length_extra ! i, 258 - length_base ! i)"
    and j: "\<forall>k. k < DIST_CODES \<and> in_range dist_base DIST_CODES 32768 k \<longrightarrow> k = j"
       "get_distance_code 32768 = Some (int j, dist_extra ! j, 32768 - dist_base ! j)"
    by auto
  have "28 < LENGTH_CODES \<and> in_range length_base LENGTH_CODES 258 28"
    by (simp add: LENGTH_CODES_def in_range_def length_base_def)
  with i(1) have i28: "i = 28" by blast
  have "29 < DIST_CODES \<and> in_range dist_base DIST_CODES 32768 29"
    by (simp add: DIST_CODES_def in_range_def dist_base_def)
  with j(1) have j29: "j = 29" by blast
  show ?thesis
    using i(2) j(2) unfolding i28 j29
    by (simp add: length_extra_def length_base_def dist_extra_def dist_base_def)
qed

section \<open>The matcher: what the search returns and what the chains hold\<close>


text \<open>
  The truncation to a C \<^verbatim>\<open>int\<close>: the value modulo \<open>2 ^ 32\<close>, in the range from
  \<open>- 2 ^ 31\<close>. A distance that passes the range check of the search is the true
  distance as long as the position is at most \<open>2 ^ 32\<close>, and two chain positions in
  order give distances in the same order.
\<close>

lemma int32_of_mod: "int32_of x = (x + 2147483648) mod 4294967296 - 2147483648"
proof -
  have "int32_of x = signed_take_bit 31 x"
    unfolding int32_of_def by (simp add: sint_sbintrunc')
  also have "\<dots> = take_bit 32 (x + 2 ^ 31) - 2 ^ 31"
    by (simp only: signed_take_bit_eq_take_bit_shift) simp
  also have "\<dots> = (x + 2147483648) mod 4294967296 - 2147483648"
    by (simp add: take_bit_eq_mod)
  finally show ?thesis .
qed

lemma int32_of_range: "- 2147483648 \<le> int32_of x \<and> int32_of x < 2147483648"
proof -
  have "0 \<le> (x + 2147483648) mod 4294967296" "(x + 2147483648) mod 4294967296 < (4294967296 :: int)"
    by simp_all
  then show ?thesis unfolding int32_of_mod by linarith
qed

lemma int32_of_shift: "\<exists>k. int32_of x = x - 4294967296 * k"
proof -
  have "(x + 2147483648) mod 4294967296
          = (x + 2147483648) - 4294967296 * ((x + 2147483648) div 4294967296)"
    by (rule minus_mult_div_eq_mod [symmetric])
  then have "int32_of x = x - 4294967296 * ((x + 2147483648) div 4294967296)"
    unfolding int32_of_mod by linarith
  then show ?thesis by blast
qed

lemma int32_of_le: "0 \<le> x \<Longrightarrow> int32_of x \<le> x"
proof -
  assume x: "0 \<le> x"
  obtain k where k: "int32_of x = x - 4294967296 * k"
    using int32_of_shift by blast
  have "0 \<le> k"
    using x int32_of_range [of x] unfolding k by linarith
  then show ?thesis unfolding k by linarith
qed

lemma int32_of_distance:
  assumes "0 < x" "x \<le> 4294967296" "0 < int32_of x"
  shows "int32_of x = x"
proof -
  obtain k where k: "int32_of x = x - 4294967296 * k"
    using int32_of_shift by blast
  from assms(1) int32_of_range [of x] have "0 \<le> k"
    unfolding k by linarith
  moreover from assms(2,3) have "k \<le> 0"
    unfolding k by linarith
  ultimately have "k = 0" by simp
  then show ?thesis unfolding k by simp
qed


lemma match_length_spec:
  "0 \<le> len \<Longrightarrow> len \<le> max_len \<Longrightarrow>
   len \<le> match_length data m p max_len len \<and>
   match_length data m p max_len len \<le> max_len \<and>
   (\<forall>k. len \<le> k \<and> k < match_length data m p max_len len \<longrightarrow>
        data ! (m + nat k) = data ! (p + nat k))"
proof (induction data m p max_len len rule: match_length.induct)
  case (1 data m p max_len len)
  show ?case
  proof (cases "len < max_len \<and> data ! (m + nat len) = data ! (p + nat len)")
    case True
    then have u: "match_length data m p max_len len = match_length data m p max_len (len + 1)"
      by (subst match_length.simps) simp
    from True "1.prems" have "0 \<le> len + 1" "len + 1 \<le> max_len" by simp_all
    from "1.IH" [OF True this] have
      ih: "len + 1 \<le> match_length data m p max_len (len + 1)"
        "match_length data m p max_len (len + 1) \<le> max_len"
        "\<forall>k. len + 1 \<le> k \<and> k < match_length data m p max_len (len + 1) \<longrightarrow>
            data ! (m + nat k) = data ! (p + nat k)"
      by blast+
    have "\<forall>k. len \<le> k \<and> k < match_length data m p max_len (len + 1) \<longrightarrow>
            data ! (m + nat k) = data ! (p + nat k)"
    proof (intro allI impI)
      fix k assume k: "len \<le> k \<and> k < match_length data m p max_len (len + 1)"
      show "data ! (m + nat k) = data ! (p + nat k)"
      proof (cases "k = len")
        case True
        then show ?thesis using \<open>len < max_len \<and> data ! (m + nat len) = data ! (p + nat len)\<close> by simp
      next
        case False
        with k have "len + 1 \<le> k" by simp
        with k ih(3) show ?thesis by blast
      qed
    qed
    with ih(1,2) show ?thesis unfolding u by simp
  next
    case False
    then have "match_length data m p max_len len = len"
      by (subst match_length.simps) auto
    with "1.prems" show ?thesis by auto
  qed
qed

text \<open>What \<^verbatim>\<open>best_length\<close> and \<^verbatim>\<open>best_distance\<close> hold during a search at position \<open>p\<close>.\<close>

definition valid_best :: "byte list \<Rightarrow> nat \<Rightarrow> int \<times> int \<Rightarrow> bool" where
  "valid_best data p best =
     (best = (0, 0) \<or>
      (3 \<le> fst best \<and> fst best \<le> 258 \<and> int p + fst best \<le> int (length data) \<and>
       1 \<le> snd best \<and> snd best \<le> int p \<and> snd best \<le> 32768 \<and>
       (\<forall>k. k < nat (fst best) \<longrightarrow> data ! (p - nat (snd best) + k) = data ! (p + k))))"

text \<open>
  The hash chains: a stored value is negative (none), or it is a C \<^verbatim>\<open>int\<close> that is an
  inserted position below the frontier \<open>f\<close>; and \<^verbatim>\<open>prev\<close> of an inserted position is
  below that position.
\<close>

definition chain_ok :: "byte list \<Rightarrow> nat \<Rightarrow> int \<Rightarrow> bool" where
  "chain_ok data f m =
     (m < 0 \<or> (m < int f \<and> m + 2 < int (length data) \<and> m < 2147483648))"

definition chain_inv :: "byte list \<Rightarrow> nat \<Rightarrow> (nat \<Rightarrow> int) \<Rightarrow> (nat \<Rightarrow> int) \<Rightarrow> bool" where
  "chain_inv data f ht pv =
     ((\<forall>h. chain_ok data f (ht h)) \<and>
      (\<forall>q. q < f \<and> q + 2 < length data \<longrightarrow> pv q < int q))"

lemma chain_ok_prev:
  assumes pv: "\<forall>q. q < f \<and> q + 2 < length data \<longrightarrow> pv q < int q"
    and m: "chain_ok data f m" "0 \<le> m"
  shows "chain_ok data f (pv (nat m))"
proof -
  from m have 1: "nat m < f" "nat m + 2 < length data"
    by (auto simp: chain_ok_def)
  with pv have "pv (nat m) < int (nat m)" by blast
  with m 1 show ?thesis by (auto simp: chain_ok_def)
qed

lemma search_chain_valid:
  "int p \<le> 4294967296 \<Longrightarrow> p < length data \<Longrightarrow>
   \<forall>q. q < p \<and> q + 2 < length data \<longrightarrow> pv q < int q \<Longrightarrow>
   chain_ok data p m \<Longrightarrow> valid_best data p best \<Longrightarrow>
   valid_best data p (search_chain data pv p m cl best)"
proof (induction data pv p m cl best rule: search_chain.induct)
  case (1 data pv p m cl best)
  note sz = "1.prems"(1) and p = "1.prems"(2) and pv = "1.prems"(3)
    and m = "1.prems"(4) and vb = "1.prems"(5)
  show ?case
  proof (cases "0 \<le> m \<and> cl < 128")
    case False
    then have "search_chain data pv p m cl best = best"
      by (subst search_chain.simps) auto
    with vb show ?thesis by simp
  next
    case True
    with m have mp: "m < int p" "m + 2 < int (length data)"
      by (auto simp: chain_ok_def)
    define dist where "dist = int32_of (int p - m)"
    show ?thesis
    proof (cases "MAX_DIST < dist \<or> dist \<le> 0")
      case far: True
      then have "search_chain data pv p m cl best = best"
        using True by (subst search_chain.simps) (simp add: dist_def [symmetric])
      with vb show ?thesis by simp
    next
      case nd: False
      then have near: "dist \<le> 32768" and dp: "0 < dist"
        by (simp_all add: MAX_DIST_def)
      have d: "dist = int p - m"
        unfolding dist_def using True mp sz dp [unfolded dist_def]
        by (intro int32_of_distance) simp_all
      define max_len where "max_len = (if int (length data - p) < MAX_MATCH
                           then int (length data - p) else MAX_MATCH)"
      define len where "len = match_length data (nat m) p max_len 0"
      define best' where "best' = (if MIN_MATCH \<le> len \<and> fst best < len then (len, dist) else best)"
      have ml: "0 \<le> max_len" "max_len \<le> 258" "int p + max_len \<le> int (length data)"
        using p by (auto simp: max_len_def MAX_MATCH_def)
      from match_length_spec [OF _ ml(1), of data "nat m" p] have
        l: "0 \<le> len" "len \<le> max_len"
           "\<forall>k. 0 \<le> k \<and> k < len \<longrightarrow> data ! (nat m + nat k) = data ! (p + nat k)"
        unfolding len_def by auto
      have u: "search_chain data pv p m cl best =
               search_chain data pv p (pv (nat m)) (cl + 1) best'"
        using True nd unfolding best'_def len_def max_len_def dist_def
        by (subst search_chain.simps) (simp add: Let_def)
      have vb': "valid_best data p best'"
      proof (cases "MIN_MATCH \<le> len \<and> fst best < len")
        case False
        then show ?thesis using vb by (auto simp: best'_def)
      next
        case True
        have pm: "p - nat dist = nat m"
          using d \<open>0 \<le> m \<and> cl < 128\<close> mp by simp
        have "\<forall>k. k < nat len \<longrightarrow> data ! (p - nat dist + k) = data ! (p + k)"
        proof (intro allI impI)
          fix k assume "k < nat len"
          then have "0 \<le> int k \<and> int k < len" by simp
          with l(3) have "data ! (nat m + nat (int k)) = data ! (p + nat (int k))" by blast
          then show "data ! (p - nat dist + k) = data ! (p + k)" by (simp add: pm)
        qed
        then show ?thesis
          using True l ml d mp near \<open>0 \<le> m \<and> cl < 128\<close>
          by (simp add: best'_def valid_best_def MIN_MATCH_def)
      qed
      have m': "chain_ok data p (pv (nat m))"
        using chain_ok_prev [OF pv m] True by simp
      from "1.IH" [OF True dist_def nd max_len_def len_def best'_def sz p pv m' vb']
      show ?thesis unfolding u .
    qed
  qed
qed

lemma chain_inv_mono:
  assumes "chain_inv data f ht pv" and "f \<le> f'" and "length data \<le> f + 2"
  shows "chain_inv data f' ht pv"
proof -
  have a: "\<forall>h. chain_ok data f' (ht h)"
  proof
    fix h
    from assms(1) have "chain_ok data f (ht h)" by (simp add: chain_inv_def)
    with assms(2) show "chain_ok data f' (ht h)" by (auto simp: chain_ok_def)
  qed
  have b: "\<forall>q. q < f' \<and> q + 2 < length data \<longrightarrow> pv q < int q"
  proof (intro allI impI)
    fix q assume q: "q < f' \<and> q + 2 < length data"
    with assms(3) have "q < f" by simp
    with q assms(1) show "pv q < int q" by (simp add: chain_inv_def)
  qed
  show ?thesis using a b by (simp add: chain_inv_def)
qed

lemma chain_inv_insert_hash:
  assumes inv: "chain_inv data q (hash_table st) (prev st)"
    and q: "q + 2 < length data"
  shows "chain_inv data (q + 1) (hash_table (insert_hash data q st)) (prev (insert_hash data q st))"
proof -
  define h where "h = hash3 data q"
  define v where "v = int32_of (int q)"
  have ht: "hash_table (insert_hash data q st) = (hash_table st)(h := v)"
    and pv: "prev (insert_hash data q st) = (prev st)(q := hash_table st h)"
    by (simp_all add: insert_hash_def Let_def h_def v_def)
  have vq: "v \<le> int q" "v < 2147483648"
    using int32_of_le [of "int q"] int32_of_range [of "int q"] by (simp_all add: v_def)
  then have nv: "chain_ok data (q + 1) v"
    using q by (simp add: chain_ok_def)
  have old: "\<And>g. chain_ok data q (hash_table st g)"
    using inv by (simp add: chain_inv_def)
  have a: "\<forall>g. chain_ok data (q + 1) (((hash_table st)(h := v)) g)"
  proof
    fix g
    show "chain_ok data (q + 1) (((hash_table st)(h := v)) g)"
      using old [of g] nv by (auto simp: chain_ok_def)
  qed
  have b: "\<forall>r. r < q + 1 \<and> r + 2 < length data \<longrightarrow> ((prev st)(q := hash_table st h)) r < int r"
  proof (intro allI impI)
    fix r assume r: "r < q + 1 \<and> r + 2 < length data"
    show "((prev st)(q := hash_table st h)) r < int r"
    proof (cases "r = q")
      case True
      then show ?thesis using old [of h] by (auto simp: chain_ok_def)
    next
      case False
      with r have "r < q" by simp
      with r inv False show ?thesis by (simp add: chain_inv_def)
    qed
  qed
  show ?thesis
    unfolding ht pv using a b by (simp add: chain_inv_def)
qed

lemma tokens_insert_hash: "tokens (insert_hash data q st) = tokens st"
  by (simp add: insert_hash_def Let_def)

lemma insert_match_spec:
  "int i \<le> bl \<Longrightarrow>
   chain_inv data (lz_pos st + i) (hash_table st) (prev st) \<Longrightarrow>
   chain_inv data (lz_pos st + nat bl) (hash_table (insert_match data bl i st))
     (prev (insert_match data bl i st)) \<and>
   tokens (insert_match data bl i st) = tokens st"
proof (induction data bl i st rule: insert_match.induct)
  case (1 data bl i st)
  show ?case
  proof (cases "int i < bl \<and> lz_pos st + i + 2 < length data")
    case True
    define st1 where "st1 = insert_hash data (lz_pos st + i) st"
    have u: "insert_match data bl i st = insert_match data bl (i + 1) st1"
      using True by (subst insert_match.simps) (simp add: st1_def)
    have p1: "lz_pos st1 = lz_pos st" and t1: "tokens st1 = tokens st"
      by (simp_all add: st1_def lz_pos_insert_hash tokens_insert_hash)
    have "chain_inv data (lz_pos st + i + 1) (hash_table st1) (prev st1)"
      unfolding st1_def using True
      by (intro chain_inv_insert_hash [OF "1.prems"(2)]) simp
    then have c1: "chain_inv data (lz_pos st1 + (i + 1)) (hash_table st1) (prev st1)"
      by (simp add: p1)
    have i1: "int (i + 1) \<le> bl" using True by simp
    from "1.IH" [OF True i1, folded st1_def, OF c1]
    show ?thesis unfolding u by (simp add: p1 t1)
  next
    case False
    then have u: "insert_match data bl i st = st"
      by (subst insert_match.simps) auto
    have "chain_inv data (lz_pos st + nat bl) (hash_table st) (prev st)"
    proof (cases "int i < bl")
      case True
      with False have "length data \<le> lz_pos st + i + 2" by simp
      with True have "lz_pos st + i \<le> lz_pos st + nat bl" by simp
      from chain_inv_mono [OF "1.prems"(2) this \<open>length data \<le> lz_pos st + i + 2\<close>]
      show ?thesis .
    next
      case False
      with "1.prems"(1) have "nat bl = i" by simp
      with "1.prems"(2) show ?thesis by simp
    qed
    then show ?thesis unfolding u by simp
  qed
qed


section \<open>Replaying a token stream\<close>

text \<open>
  The replay of the specification: a literal token appends its byte; a match token
  appends \<open>length\<close> bytes, one at a time, each read \<open>distance\<close> bytes before the end of
  what has been produced so far (so the copy may run into its own output).
\<close>

fun copy_match :: "byte list \<Rightarrow> nat \<Rightarrow> nat \<Rightarrow> byte list" where
  "copy_match out d 0 = out"
| "copy_match out d (Suc n) = copy_match (out @ [out ! (length out - d)]) d n"

definition replay_token :: "byte list \<Rightarrow> LZ77Token \<Rightarrow> byte list option" where
  "replay_token out t =
     (if 0 \<le> literal t then
        (if literal t \<le> 255 then Some (out @ [word_of_int (literal t)]) else None)
      else if 1 \<le> distance t \<and> distance t \<le> int (length out) \<and> 0 \<le> length_tok t
      then Some (copy_match out (nat (distance t)) (nat (length_tok t)))
      else None)"

fun replay :: "byte list \<Rightarrow> LZ77Token list \<Rightarrow> byte list option" where
  "replay out [] = Some out"
| "replay out (t # ts) =
     (case replay_token out t of None \<Rightarrow> None | Some out' \<Rightarrow> replay out' ts)"

text \<open>The input bytes a token covers, and the stream position of the \<open>i\<close>-th token.\<close>

definition token_span :: "LZ77Token \<Rightarrow> nat" where
  "token_span t = (if 0 \<le> literal t then 1 else nat (length_tok t))"

definition stream_pos :: "LZ77Token list \<Rightarrow> nat \<Rightarrow> nat" where
  "stream_pos toks i = sum_list (map token_span (take i toks))"

text \<open>Match validity at stream position \<open>p\<close>, as the specification states it.\<close>

definition valid_match :: "byte list \<Rightarrow> nat \<Rightarrow> LZ77Token \<Rightarrow> bool" where
  "valid_match data p t =
     (3 \<le> length_tok t \<and> length_tok t \<le> 258 \<and>
      1 \<le> distance t \<and> distance t \<le> min 32768 (int p) \<and>
      copy_match (take p data) (nat (distance t)) (nat (length_tok t)) =
        take p data @ take (nat (length_tok t)) (drop p data))"

text \<open>
  A token is right at position \<open>p\<close>: a literal holds the byte at \<open>p\<close>, a match is valid
  at \<open>p\<close> and stays inside the input.
\<close>

definition token_ok :: "byte list \<Rightarrow> nat \<Rightarrow> LZ77Token \<Rightarrow> bool" where
  "token_ok data p t =
     (if 0 \<le> literal t
      then p < length data \<and> literal t = uint (data ! p)
      else p + nat (length_tok t) \<le> length data \<and> valid_match data p t)"

lemma replay_append:
  "replay out (ts @ [t]) =
     (case replay out ts of None \<Rightarrow> None | Some out' \<Rightarrow> replay_token out' t)"
  by (induction ts arbitrary: out) (auto split: option.splits)

lemma copy_match_take:
  "1 \<le> d \<Longrightarrow> d \<le> p \<Longrightarrow> p + n \<le> length data \<Longrightarrow>
   \<forall>k. k < n \<longrightarrow> data ! (p - d + k) = data ! (p + k) \<Longrightarrow>
   copy_match (take p data) d n = take (p + n) data"
proof (induction n arbitrary: p)
  case 0
  then show ?case by simp
next
  case (Suc n)
  from Suc.prems have pl: "p < length data" by simp
  from Suc.prems(4) have k0: "data ! (p - d) = data ! p"
    by (metis add.right_neutral zero_less_Suc)
  have "take p data ! (length (take p data) - d) = data ! (p - d)"
    using pl Suc.prems(1,2) by simp
  then have st: "take p data @ [take p data ! (length (take p data) - d)] = take (p + 1) data"
    using pl k0 by (simp add: take_Suc_conv_app_nth)
  have nx: "\<forall>k. k < n \<longrightarrow> data ! (p + 1 - d + k) = data ! (p + 1 + k)"
  proof (intro allI impI)
    fix k assume "k < n"
    then have "Suc k < Suc n" by simp
    with Suc.prems(4) have "data ! (p - d + Suc k) = data ! (p + Suc k)"
      by blast
    moreover have "p + 1 - d + k = p - d + Suc k"
      using Suc.prems(2) by simp
    ultimately show "data ! (p + 1 - d + k) = data ! (p + 1 + k)" by simp
  qed
  have "copy_match (take (p + 1) data) d n = take (p + 1 + n) data"
    using Suc.prems by (intro Suc.IH nx) simp_all
  then show ?case
    by (simp add: st [simplified])
qed

lemma valid_best_match:
  assumes vb: "valid_best data p (bl, bd)" and bl: "3 \<le> bl"
  shows "token_ok data p \<lparr>literal = -1, length_tok = bl, distance = bd\<rparr>"
    and "replay_token (take p data) \<lparr>literal = -1, length_tok = bl, distance = bd\<rparr>
           = Some (take (p + nat bl) data)"
proof -
  from vb bl have v: "bl \<le> 258" "int p + bl \<le> int (length data)" "1 \<le> bd" "bd \<le> int p"
    "bd \<le> 32768" "\<forall>k. k < nat bl \<longrightarrow> data ! (p - nat bd + k) = data ! (p + k)"
    by (auto simp: valid_best_def)
  have cp: "copy_match (take p data) (nat bd) (nat bl) = take (p + nat bl) data"
    using v bl by (intro copy_match_take) simp_all
  show "token_ok data p \<lparr>literal = -1, length_tok = bl, distance = bd\<rparr>"
    using v bl cp by (simp add: token_ok_def valid_match_def take_add)
  show "replay_token (take p data) \<lparr>literal = -1, length_tok = bl, distance = bd\<rparr>
           = Some (take (p + nat bl) data)"
    using v bl cp by (simp add: replay_token_def)
qed

section \<open>The matcher: the loop invariant\<close>


text \<open>Every token of a stream is right at its stream position.\<close>

definition tokens_ok :: "byte list \<Rightarrow> LZ77Token list \<Rightarrow> bool" where
  "tokens_ok data toks = (\<forall>i. i < length toks \<longrightarrow> token_ok data (stream_pos toks i) (toks ! i))"

text \<open>The invariant of the main loop of \<^verbatim>\<open>lz77_compress\<close>.\<close>

definition lz_inv :: "byte list \<Rightarrow> lz77_state \<Rightarrow> bool" where
  "lz_inv data st =
     (lz_pos st \<le> length data \<and>
      chain_inv data (lz_pos st) (hash_table st) (prev st) \<and>
      replay [] (tokens st) = Some (take (lz_pos st) data) \<and>
      tokens_ok data (tokens st) \<and>
      stream_pos (tokens st) (length (tokens st)) = lz_pos st)"

lemma lz_inv_init: "lz_inv data (lz77_init prev0)"
  by (simp add: lz_inv_def lz77_init_def chain_inv_def chain_ok_def tokens_ok_def stream_pos_def)

lemma stream_pos_append:
  "i \<le> length toks \<Longrightarrow> stream_pos (toks @ [t]) i = stream_pos toks i"
  "stream_pos (toks @ [t]) (Suc (length toks)) = stream_pos toks (length toks) + token_span t"
  by (simp_all add: stream_pos_def)

lemma tokens_ok_append:
  assumes "tokens_ok data toks" and "token_ok data (stream_pos toks (length toks)) t"
  shows "tokens_ok data (toks @ [t])"
  unfolding tokens_ok_def
proof (intro allI impI)
  fix i assume "i < length (toks @ [t])"
  then consider "i < length toks" | "i = length toks" by fastforce
  then show "token_ok data (stream_pos (toks @ [t]) i) ((toks @ [t]) ! i)"
  proof cases
    case 1
    with assms(1) show ?thesis
      by (simp add: tokens_ok_def stream_pos_append nth_append)
  next
    case 2
    with assms(2) show ?thesis
      by (simp add: stream_pos_append)
  qed
qed

text \<open>
  A search is right as long as the position is at most \<open>2 ^ 32\<close>, where the distance
  \<^verbatim>\<open>pos - match_pos\<close> still fits the C \<^verbatim>\<open>int\<close> it is stored in whenever it passes the
  range check. No search is made at a position with fewer than 3 bytes left.
\<close>

lemma find_match_valid:
  assumes inv: "lz_inv data st"
    and sz: "lz_pos st \<le> 4294967296 \<or> length data < lz_pos st + 3"
    and p: "lz_pos st < length data"
  shows "valid_best data (lz_pos st) (find_match data st)"
proof (cases "int (lz_pos st) + MIN_MATCH \<le> int (length data)")
  case False
  then show ?thesis by (simp add: find_match_def valid_best_def)
next
  case True
  with sz have sz: "int (lz_pos st) \<le> 4294967296"
    by (simp add: MIN_MATCH_def)
  from inv have pv: "\<forall>q. q < lz_pos st \<and> q + 2 < length data \<longrightarrow> prev st q < int q"
    and ht: "chain_ok data (lz_pos st) (hash_table st (hash3 data (lz_pos st)))"
    by (simp_all add: lz_inv_def chain_inv_def)
  have v0: "valid_best data (lz_pos st) (0, 0)"
    by (simp add: valid_best_def)
  from search_chain_valid [OF sz p pv ht v0] True show ?thesis
    by (simp add: find_match_def)
qed

lemma lz_inv_step:
  assumes inv: "lz_inv data st"
    and sz: "lz_pos st \<le> 4294967296 \<or> length data < lz_pos st + 3"
    and p: "lz_pos st < length data"
  shows "lz_inv data (lz77_step data st)"
proof -
  obtain bl bd where fm: "find_match data st = (bl, bd)"
    by (cases "find_match data st")
  from find_match_valid [OF inv sz p] have vb: "valid_best data (lz_pos st) (bl, bd)"
    by (simp add: fm)
  from inv have ci: "chain_inv data (lz_pos st) (hash_table st) (prev st)"
    and rp: "replay [] (tokens st) = Some (take (lz_pos st) data)"
    and tk: "tokens_ok data (tokens st)"
    and sp: "stream_pos (tokens st) (length (tokens st)) = lz_pos st"
    by (simp_all add: lz_inv_def)
  show ?thesis
  proof (cases "MIN_MATCH \<le> bl")
    case True
    then have bl3: "3 \<le> bl" by (simp add: MIN_MATCH_def)
    define t where "t = \<lparr>literal = -1, length_tok = bl, distance = bd\<rparr>"
    define st1 where "st1 = st\<lparr>tokens := tokens st @ [t]\<rparr>"
    define st2 where "st2 = insert_match data bl 0 st1"
    have step: "lz77_step data st = st2\<lparr>lz_pos := lz_pos st2 + nat bl\<rparr>"
      using True by (simp add: lz77_step_def fm Let_def st2_def st1_def t_def)
    have p2: "lz_pos st2 = lz_pos st"
      by (simp add: st2_def lz_pos_insert_match st1_def)
    have c1: "chain_inv data (lz_pos st1 + 0) (hash_table st1) (prev st1)"
      using ci by (simp add: st1_def)
    from insert_match_spec [OF _ c1, of bl] bl3 have
      c2: "chain_inv data (lz_pos st + nat bl) (hash_table st2) (prev st2)"
      and t2: "tokens st2 = tokens st @ [t]"
      by (simp_all add: st2_def [symmetric]) (simp_all add: st1_def)
    from vb bl3 have le: "lz_pos st + nat bl \<le> length data"
      by (auto simp: valid_best_def)
    have tok: "token_ok data (lz_pos st) t"
      and rt: "replay_token (take (lz_pos st) data) t = Some (take (lz_pos st + nat bl) data)"
      unfolding t_def by (rule valid_best_match [OF vb bl3])+
    have r2: "replay [] (tokens st @ [t]) = Some (take (lz_pos st + nat bl) data)"
      by (simp add: replay_append rp rt)
    have k2: "tokens_ok data (tokens st @ [t])"
      using tk tok by (intro tokens_ok_append) (simp_all add: sp)
    have s2: "stream_pos (tokens st @ [t]) (length (tokens st @ [t])) = lz_pos st + nat bl"
      by (simp add: stream_pos_append sp token_span_def t_def)
    show ?thesis
      unfolding step using le c2 r2 k2 s2
      by (simp add: lz_inv_def p2 t2)
  next
    case False
    define t where "t = \<lparr>literal = uint (data ! lz_pos st), length_tok = 0, distance = 0\<rparr>"
    define st1 where "st1 = st\<lparr>tokens := tokens st @ [t]\<rparr>"
    define st2 where "st2 = (if lz_pos st1 + 2 < length data
                             then insert_hash data (lz_pos st1) st1 else st1)"
    have step: "lz77_step data st = st2\<lparr>lz_pos := lz_pos st2 + 1\<rparr>"
      using False by (simp add: lz77_step_def fm Let_def st2_def st1_def t_def)
    have p2: "lz_pos st2 = lz_pos st" and t2: "tokens st2 = tokens st @ [t]"
      by (simp_all add: st2_def lz_pos_insert_hash tokens_insert_hash st1_def)
    have c1: "chain_inv data (lz_pos st) (hash_table st1) (prev st1)"
      using ci by (simp add: st1_def)
    have c2: "chain_inv data (lz_pos st + 1) (hash_table st2) (prev st2)"
    proof (cases "lz_pos st + 2 < length data")
      case True
      then have "st2 = insert_hash data (lz_pos st) st1"
        by (simp add: st2_def st1_def)
      then show ?thesis
        using chain_inv_insert_hash [OF c1 True] by simp
    next
      case False
      then have "st2 = st1" by (simp add: st2_def st1_def)
      moreover from False have "length data \<le> lz_pos st + 2" by simp
      ultimately show ?thesis
        using chain_inv_mono [OF c1 _ \<open>length data \<le> lz_pos st + 2\<close>, of "lz_pos st + 1"]
        by simp
    qed
    have ub: "uint (data ! lz_pos st) \<le> 255"
      using uint_lt2p [of "data ! lz_pos st"] by simp
    have rt: "replay_token (take (lz_pos st) data) t = Some (take (lz_pos st + 1) data)"
      using p ub by (simp add: replay_token_def t_def take_Suc_conv_app_nth)
    have r2: "replay [] (tokens st @ [t]) = Some (take (lz_pos st + 1) data)"
      by (simp add: replay_append rp rt del: replay.simps)
    have tok: "token_ok data (lz_pos st) t"
      using p by (simp add: token_ok_def t_def)
    have k2: "tokens_ok data (tokens st @ [t])"
      using tk tok by (intro tokens_ok_append) (simp_all add: sp)
    have s2: "stream_pos (tokens st @ [t]) (length (tokens st @ [t])) = lz_pos st + 1"
      by (simp add: stream_pos_append sp token_span_def t_def)
    have le: "lz_pos st + 1 \<le> length data" using p by simp
    show ?thesis
      unfolding step using le c2 r2 k2 s2
      by (simp add: lz_inv_def p2 t2)
  qed
qed

text \<open>
  So the main loop keeps its invariant on every input of at most \<open>2 ^ 32 + 3\<close> bytes:
  there every position that is searched is at most \<open>2 ^ 32\<close>.
\<close>

lemma lz77_loop_inv:
  "length data \<le> 4294967299 \<Longrightarrow> lz_inv data st \<Longrightarrow>
   lz_inv data (lz77_loop data st) \<and> lz_pos (lz77_loop data st) = length data"
proof (induction data st rule: lz77_loop.induct)
  case (1 data st)
  show ?case
  proof (cases "lz_pos st < length data")
    case True
    have u: "lz77_loop data st = lz77_loop data (lz77_step data st)"
      using True by (subst lz77_loop.simps) simp
    from "1.prems"(1) have "lz_pos st \<le> 4294967296 \<or> length data < lz_pos st + 3"
      by arith
    from "1.IH" [OF True "1.prems"(1) lz_inv_step [OF "1.prems"(2) this True]]
    show ?thesis unfolding u .
  next
    case False
    have u: "lz77_loop data st = st"
      using False by (subst lz77_loop.simps) simp
    from False "1.prems"(2) have "lz_pos st = length data"
      by (simp add: lz_inv_def)
    with "1.prems"(2) show ?thesis unfolding u by simp
  qed
qed

lemma lz77_compress_inv:
  assumes "length data \<le> 4294967299"
  shows "replay [] (lz77_compress prev0 data) = Some data"
    and "tokens_ok data (lz77_compress prev0 data)"
    and "stream_pos (lz77_compress prev0 data) (length (lz77_compress prev0 data)) = length data"
  using lz77_loop_inv [OF assms lz_inv_init, of prev0]
  by (simp_all add: lz77_compress_def lz_inv_def)


lemma copy_match_extends: "\<exists>ys. copy_match out d n = out @ ys \<and> length ys = n"
proof (induction n arbitrary: out)
  case 0
  then show ?case by simp
next
  case (Suc n)
  from Suc [of "out @ [out ! (length out - d)]"] obtain ys where
    "copy_match (out @ [out ! (length out - d)]) d n = (out @ [out ! (length out - d)]) @ ys"
    "length ys = n"
    by blast
  then have "copy_match out d (Suc n) = out @ (out ! (length out - d) # ys) \<and>
             length (out ! (length out - d) # ys) = Suc n"
    by simp
  then show ?case by blast
qed

lemma replay_token_extends:
  assumes "replay_token out t = Some out'"
  shows "\<exists>ys. out' = out @ ys \<and> length ys = token_span t"
proof (cases "0 \<le> literal t")
  case True
  with assms show ?thesis
    by (auto simp: replay_token_def token_span_def split: if_splits)
next
  case False
  with assms have "out' = copy_match out (nat (distance t)) (nat (length_tok t))"
    by (auto simp: replay_token_def split: if_splits)
  with copy_match_extends [of out "nat (distance t)" "nat (length_tok t)"] False
  show ?thesis by (auto simp: token_span_def)
qed

lemma replay_extends:
  "replay out ts = Some r \<Longrightarrow>
   \<exists>ys. r = out @ ys \<and> length ys = sum_list (map token_span ts)"
proof (induction ts arbitrary: out)
  case Nil
  then show ?case by simp
next
  case (Cons t ts)
  from Cons.prems obtain o' where t: "replay_token out t = Some o'"
    and r: "replay o' ts = Some r"
    by (auto split: option.splits)
  from replay_token_extends [OF t] obtain zs where z: "o' = out @ zs" "length zs = token_span t"
    by blast
  from Cons.IH [OF r] obtain ys where y: "r = o' @ ys" "length ys = sum_list (map token_span ts)"
    by blast
  have "r = out @ (zs @ ys) \<and> length (zs @ ys) = sum_list (map token_span (t # ts))"
    using z y by simp
  then show ?case by blast
qed

lemma replay_concat:
  "replay out (ts1 @ ts2) =
     (case replay out ts1 of None \<Rightarrow> None | Some o1 \<Rightarrow> replay o1 ts2)"
  by (induction ts1 arbitrary: out) (auto split: option.splits)

lemma replay_split:
  assumes "replay out (ts1 @ ts2) = Some r"
  shows "\<exists>o1 ys. replay out ts1 = Some o1 \<and> r = o1 @ ys \<and>
      length o1 = length out + sum_list (map token_span ts1)"
proof -
  from assms obtain o1 where o: "replay out ts1 = Some o1" "replay o1 ts2 = Some r"
    by (auto simp: replay_concat split: option.splits)
  from replay_extends [OF o(1)] obtain zs where
    z: "o1 = out @ zs" "length zs = sum_list (map token_span ts1)"
    by blast
  from replay_extends [OF o(2)] obtain ys where y: "r = o1 @ ys"
    by blast
  show ?thesis
    using o(1) y z by auto
qed

lemma replay_prefixes:
  assumes r: "replay [] toks = Some S"
  shows "replay [] (take i toks) = Some (take (stream_pos toks i) S)"
proof -
  from r have "replay [] (take i toks @ drop i toks) = Some S" by simp
  from replay_split [OF this] obtain o1 ys where
    o: "replay [] (take i toks) = Some o1" "S = o1 @ ys"
       "length o1 = stream_pos toks i"
    by (auto simp: stream_pos_def)
  from o(2,3) have "take (stream_pos toks i) S = o1" by simp
  with o(1) show ?thesis by simp
qed


definition abcdef2 :: "byte list" where
  "abcdef2 = [65, 66, 67, 68, 69, 70, 65, 66, 67, 68, 69, 70]"


text \<open>
  Within the range of the C \<^verbatim>\<open>int\<close> the token stream is right. For every input of at
  most \<open>2 ^ 32 + 3\<close> bytes, replaying the tokens of \<^verbatim>\<open>lz77_compress\<close> in order gives the
  input exactly, after the first \<open>i\<close> tokens the replay has produced exactly the first
  \<open>stream_pos i\<close> bytes, and every match token \<open>(len, dist)\<close>, at its stream position
  \<open>p\<close>, has \<open>3 \<le> len \<le> 258\<close> and \<open>1 \<le> dist \<le> min(32768, p)\<close> and copies exactly the
  bytes of the input from \<open>p\<close> on.
\<close>

lemma lz77_replay_within_int_range:
  assumes "length S \<le> 4294967299"
  shows "replay [] (lz77_compress prev0 S) = Some S \<and>
         stream_pos (lz77_compress prev0 S) (length (lz77_compress prev0 S)) = length S \<and>
         (\<forall>i. replay [] (take i (lz77_compress prev0 S)) =
               Some (take (stream_pos (lz77_compress prev0 S) i) S))"
  using lz77_compress_inv(1,3) [OF assms, of prev0]
    replay_prefixes [OF lz77_compress_inv(1) [OF assms, of prev0]]
  by blast

lemma lz77_match_within_int_range:
  assumes "length S \<le> 4294967299" and "i < length (lz77_compress prev0 S)"
    and "literal (lz77_compress prev0 S ! i) < 0"
  shows "valid_match S (stream_pos (lz77_compress prev0 S) i) (lz77_compress prev0 S ! i) \<and>
         stream_pos (lz77_compress prev0 S) i + nat (length_tok (lz77_compress prev0 S ! i))
           \<le> length S"
proof -
  from lz77_compress_inv(2) [OF assms(1), of prev0] assms(2)
  have "token_ok S (stream_pos (lz77_compress prev0 S) i) (lz77_compress prev0 S ! i)"
    by (simp add: tokens_ok_def)
  with assms(3) show ?thesis
    by (simp add: token_ok_def)
qed

subsection \<open>What holds on inputs of every size\<close>



text \<open>
  The stream covers the input on every input: a match is never longer than what is
  left of the input, so the loop ends exactly at the end, the spans of the tokens add
  up to the position, and every token is a literal or has a length of 3 or more.
\<close>

definition span_inv :: "byte list \<Rightarrow> lz77_state \<Rightarrow> bool" where
  "span_inv data st =
     (lz_pos st \<le> length data \<and>
      sum_list (map token_span (tokens st)) = lz_pos st \<and>
      (\<forall>t \<in> set (tokens st). 0 \<le> literal t \<or> 3 \<le> length_tok t))"

lemma search_chain_length:
  "fst best \<le> int (length data - p) \<Longrightarrow>
   fst (search_chain data pv p m cl best) \<le> int (length data - p)"
proof (induction data pv p m cl best rule: search_chain.induct)
  case (1 data pv p m cl best)
  show ?case
  proof (cases "0 \<le> m \<and> cl < 128 \<and>
                \<not> (MAX_DIST < int32_of (int p - m) \<or> int32_of (int p - m) \<le> 0)")
    case False
    then have "search_chain data pv p m cl best = best"
      by (subst search_chain.simps) (auto simp: Let_def)
    with "1.prems" show ?thesis by simp
  next
    case True
    then have t: "0 \<le> m \<and> cl < 128"
      and n: "\<not> (MAX_DIST < int32_of (int p - m) \<or> int32_of (int p - m) \<le> 0)"
      by simp_all
    define max_len where "max_len = (if int (length data - p) < MAX_MATCH
                           then int (length data - p) else MAX_MATCH)"
    define len where "len = match_length data (nat m) p max_len 0"
    define best' where "best' = (if MIN_MATCH \<le> len \<and> fst best < len
                                 then (len, int32_of (int p - m)) else best)"
    have ml: "0 \<le> max_len" "max_len \<le> int (length data - p)"
      by (auto simp: max_len_def MAX_MATCH_def)
    from match_length_spec [OF _ ml(1), of data "nat m" p] have "len \<le> max_len"
      unfolding len_def by simp
    with ml(2) "1.prems" have b: "fst best' \<le> int (length data - p)"
      by (simp add: best'_def)
    have u: "search_chain data pv p m cl best =
             search_chain data pv p (pv (nat m)) (cl + 1) best'"
      using True unfolding best'_def len_def max_len_def
      by (subst search_chain.simps) (simp add: Let_def)
    from "1.IH" [OF t refl n max_len_def len_def best'_def b]
    show ?thesis unfolding u .
  qed
qed

lemma find_match_length: "fst (find_match data st) \<le> int (length data - lz_pos st)"
  using search_chain_length [of "(0, 0)" data "lz_pos st"]
  by (simp add: find_match_def)

lemma tokens_insert_match: "tokens (insert_match data bl i st) = tokens st"
proof (induction data bl i st rule: insert_match.induct)
  case (1 data bl i st)
  show ?case
  proof (cases "int i < bl \<and> lz_pos st + i + 2 < length data")
    case True
    then show ?thesis
      using "1.IH" by (subst insert_match.simps) (simp add: tokens_insert_hash)
  next
    case False
    then show ?thesis
      by (subst insert_match.simps) auto
  qed
qed

lemma tokens_lz77_step:
  "tokens (lz77_step data st) = tokens st @
     [if MIN_MATCH \<le> fst (find_match data st)
      then \<lparr>literal = -1, length_tok = fst (find_match data st),
            distance = snd (find_match data st)\<rparr>
      else \<lparr>literal = uint (data ! lz_pos st), length_tok = 0, distance = 0\<rparr>]"
  by (simp add: lz77_step_def Let_def split_beta tokens_insert_match tokens_insert_hash)

lemma span_inv_step:
  assumes inv: "span_inv data st" and p: "lz_pos st < length data"
  shows "span_inv data (lz77_step data st)"
proof (cases "MIN_MATCH \<le> fst (find_match data st)")
  case True
  then have bl3: "3 \<le> fst (find_match data st)"
    by (simp add: MIN_MATCH_def)
  from find_match_length [of data st] p
  have "lz_pos st + nat (fst (find_match data st)) \<le> length data"
    by simp
  with inv True bl3 show ?thesis
    by (simp add: span_inv_def lz_pos_lz77_step tokens_lz77_step token_span_def)
next
  case False
  with inv p show ?thesis
    by (simp add: span_inv_def lz_pos_lz77_step tokens_lz77_step token_span_def)
qed

lemma span_inv_loop:
  "span_inv data st \<Longrightarrow>
   span_inv data (lz77_loop data st) \<and> lz_pos (lz77_loop data st) = length data"
proof (induction data st rule: lz77_loop.induct)
  case (1 data st)
  show ?case
  proof (cases "lz_pos st < length data")
    case True
    have u: "lz77_loop data st = lz77_loop data (lz77_step data st)"
      using True by (subst lz77_loop.simps) simp
    from "1.IH" [OF True span_inv_step [OF "1.prems" True]]
    show ?thesis unfolding u .
  next
    case False
    have u: "lz77_loop data st = st"
      using False by (subst lz77_loop.simps) simp
    from False "1.prems" have "lz_pos st = length data"
      by (simp add: span_inv_def)
    with "1.prems" show ?thesis unfolding u by simp
  qed
qed

lemma lz77_compress_spans:
  "sum_list (map token_span (lz77_compress prev0 data)) = length data"
  "\<forall>t \<in> set (lz77_compress prev0 data). 0 \<le> literal t \<or> 3 \<le> length_tok t"
proof -
  have "span_inv data (lz77_init prev0)"
    by (simp add: span_inv_def lz77_init_def)
  from span_inv_loop [OF this]
  show "sum_list (map token_span (lz77_compress prev0 data)) = length data"
    and "\<forall>t \<in> set (lz77_compress prev0 data). 0 \<le> literal t \<or> 3 \<le> length_tok t"
    by (simp_all add: span_inv_def lz77_compress_def)
qed

section \<open>The matcher past the range of the C int\<close>

text \<open>
  The positions the matcher stores in \<^verbatim>\<open>hash_table\<close> and \<^verbatim>\<open>prev\<close>, and the distance
  \<^verbatim>\<open>pos - match_pos\<close>, are C \<^verbatim>\<open>int\<close>s, while \<^verbatim>\<open>pos\<close> is a \<^verbatim>\<open>size_t\<close>. The input
  \<open>big_input\<close> has \<open>2 ^ 32 + 4\<close> bytes: a 1, then \<open>2 ^ 32\<close> zeros, then 1, 0, 0. Its last
  three bytes hash like its first three, the only other position with that hash.
\<close>

definition big_input :: "byte list" where
  "big_input = 1 # replicate 4294967296 0 @ [1, 0, 0]"

lemma pad_nth:
  assumes "q < n + 4"
  shows "(1 # replicate n 0 @ [1, 0, 0 :: byte]) ! q = (if q = 0 \<or> q = n + 1 then 1 else 0)"
proof -
  consider "q = 0" | "0 < q" "q \<le> n" | "q = n + 1" | "q = n + 2" | "q = n + 3"
    using assms by arith
  then show ?thesis
  proof cases
    case 1
    then show ?thesis by simp
  next
    case 2
    then have "(1 # replicate n 0 @ [1, 0, 0 :: byte]) ! q = replicate n 0 ! (q - 1)"
      by (simp add: nth_Cons' nth_append)
    with 2 show ?thesis by simp
  next
    case 3
    then show ?thesis by (simp add: nth_append)
  next
    case 4
    then show ?thesis by (simp add: nth_append)
  next
    case 5
    then show ?thesis by (simp add: nth_append)
  qed
qed

lemma big_length: "length big_input = 4294967300"
  by (simp add: big_input_def)

lemma big_nth:
  "q < 4294967300 \<Longrightarrow> big_input ! q = (if q = 0 \<or> q = 4294967297 then 1 else 0)"
  unfolding big_input_def using pad_nth [of q 4294967296] by simp

lemma big_take: "take 4294967297 big_input = 1 # replicate 4294967296 0"
  by (simp add: big_input_def)

lemma big_drop: "drop 4294967297 big_input = [1, 0, 0]"
  by (simp add: big_input_def)

lemma hash3_first: "data ! q = 1 \<Longrightarrow> data ! (q + 1) = 0 \<Longrightarrow> data ! (q + 2) = 0 \<Longrightarrow>
    hash3 data q = 1024"
  by (simp add: hash3_def HASH_MASK_def HASH_SIZE_def HASH_BITS_def)

lemma hash3_zero:
  assumes "data ! q = 0" and "data ! (q + 1) = 0 \<or> data ! (q + 1) = 1"
    and "data ! (q + 2) = 0 \<or> data ! (q + 2) = 1"
  shows "hash3 data q \<noteq> 1024"
  using assms by (auto simp: hash3_def HASH_MASK_def HASH_SIZE_def HASH_BITS_def)

lemma big_hash3_ends: "hash3 big_input 0 = 1024" "hash3 big_input 4294967297 = 1024"
  by (rule hash3_first; simp add: big_nth)+

lemma big_hash3_middle:
  assumes "1 \<le> q" and "q \<le> 4294967296"
  shows "hash3 big_input q \<noteq> 1024"
proof (rule hash3_zero)
  from assms show "big_input ! q = 0" by (simp add: big_nth)
  from assms show "big_input ! (q + 1) = 0 \<or> big_input ! (q + 1) = 1" by (simp add: big_nth)
  from assms show "big_input ! (q + 2) = 0 \<or> big_input ! (q + 2) = 1" by (simp add: big_nth)
qed

text \<open>What a round of the main loop leaves in the other entries of \<^verbatim>\<open>hash_table\<close>.\<close>

lemma hash_table_insert_hash:
  "hash_table (insert_hash data q st) h =
     (if hash3 data q = h then int32_of (int q) else hash_table st h)"
  by (simp add: insert_hash_def Let_def)

lemma hash_table_insert_match:
  "\<forall>q. lz_pos st + i \<le> q \<and> int q < int (lz_pos st) + bl \<and> q + 2 < length data
        \<longrightarrow> hash3 data q \<noteq> h \<Longrightarrow>
   hash_table (insert_match data bl i st) h = hash_table st h"
proof (induction data bl i st rule: insert_match.induct)
  case (1 data bl i st)
  show ?case
  proof (cases "int i < bl \<and> lz_pos st + i + 2 < length data")
    case True
    define st1 where "st1 = insert_hash data (lz_pos st + i) st"
    have u: "insert_match data bl i st = insert_match data bl (i + 1) st1"
      using True by (subst insert_match.simps) (simp add: st1_def)
    have p1: "lz_pos st1 = lz_pos st"
      by (simp add: st1_def lz_pos_insert_hash)
    from "1.prems" True have "hash3 data (lz_pos st + i) \<noteq> h"
      by simp
    then have h1: "hash_table st1 h = hash_table st h"
      by (simp add: st1_def hash_table_insert_hash)
    have "\<forall>q. lz_pos st1 + (i + 1) \<le> q \<and> int q < int (lz_pos st1) + bl \<and> q + 2 < length data
            \<longrightarrow> hash3 data q \<noteq> h"
      using "1.prems" by (simp add: p1)
    from "1.IH" [OF True, folded st1_def, OF this]
    show ?thesis unfolding u by (simp add: h1)
  next
    case False
    then show ?thesis
      by (subst insert_match.simps) auto
  qed
qed

lemma hash_table_lz77_step:
  assumes "\<forall>q. lz_pos st \<le> q \<and> q < lz_pos (lz77_step data st) \<and> q + 2 < length data
             \<longrightarrow> hash3 data q \<noteq> h"
  shows "hash_table (lz77_step data st) h = hash_table st h"
proof (cases "MIN_MATCH \<le> fst (find_match data st)")
  case True
  define bl where "bl = fst (find_match data st)"
  define st1 where "st1 = st\<lparr>tokens := tokens st @
      [\<lparr>literal = -1, length_tok = bl, distance = snd (find_match data st)\<rparr>]\<rparr>"
  from True have bl3: "3 \<le> bl"
    by (simp add: bl_def MIN_MATCH_def)
  have s: "hash_table (lz77_step data st) h = hash_table (insert_match data bl 0 st1) h"
    using True by (simp add: lz77_step_def Let_def split_beta bl_def st1_def)
  have p: "lz_pos (lz77_step data st) = lz_pos st + nat bl"
    using True by (simp add: lz_pos_lz77_step bl_def)
  have "\<forall>q. lz_pos st1 + 0 \<le> q \<and> int q < int (lz_pos st1) + bl \<and> q + 2 < length data
          \<longrightarrow> hash3 data q \<noteq> h"
  proof (intro allI impI)
    fix q assume q: "lz_pos st1 + 0 \<le> q \<and> int q < int (lz_pos st1) + bl \<and> q + 2 < length data"
    then have "lz_pos st \<le> q \<and> int q < int (lz_pos st) + bl \<and> q + 2 < length data"
      by (simp add: st1_def)
    with bl3 have "lz_pos st \<le> q \<and> q < lz_pos st + nat bl \<and> q + 2 < length data"
      by arith
    with assms show "hash3 data q \<noteq> h"
      unfolding p by blast
  qed
  from hash_table_insert_match [OF this] show ?thesis
    unfolding s by (simp add: st1_def)
next
  case False
  then have p: "lz_pos (lz77_step data st) = lz_pos st + 1"
    by (simp add: lz_pos_lz77_step)
  have "lz_pos st + 2 < length data \<Longrightarrow> hash3 data (lz_pos st) \<noteq> h"
    using assms unfolding p by simp
  with False show ?thesis
    by (simp add: lz77_step_def Let_def split_beta hash_table_insert_hash)
qed

text \<open>
  The run on \<open>big_input\<close> up to position \<open>2 ^ 32 + 1\<close>: every search so far was at a
  position of at most \<open>2 ^ 32\<close>, so the tokens so far are right; no match reaches the
  1 at \<open>2 ^ 32 + 1\<close>, since every byte a match could copy it from is 0; and entry 1024 of
  \<^verbatim>\<open>hash_table\<close> holds position 0 from the first round on.
\<close>

definition big_inv :: "lz77_state \<Rightarrow> bool" where
  "big_inv st =
     (lz_inv big_input st \<and> lz_pos st \<le> 4294967297 \<and>
      hash_table st 1024 = (if lz_pos st = 0 then - 1 else 0))"

lemma big_inv_init: "big_inv (lz77_init prev0)"
  using lz_inv_init [of big_input prev0] by (simp add: big_inv_def) (simp add: lz77_init_def)

lemma big_inv_step:
  assumes inv: "big_inv st" and p: "lz_pos st < 4294967297"
  shows "big_inv (lz77_step big_input st)"
proof -
  from inv have li: "lz_inv big_input st"
    and ht: "hash_table st 1024 = (if lz_pos st = 0 then - 1 else 0)"
    by (simp_all add: big_inv_def)
  from p have sz: "lz_pos st \<le> 4294967296 \<or> length big_input < lz_pos st + 3"
    and pl: "lz_pos st < length big_input"
    by (simp_all add: big_length)
  have l1: "lz_inv big_input (lz77_step big_input st)"
    by (rule lz_inv_step [OF li sz pl])
  obtain bl bd where fm: "find_match big_input st = (bl, bd)"
    by (cases "find_match big_input st")
  from find_match_valid [OF li sz pl] have vb: "valid_best big_input (lz_pos st) (bl, bd)"
    by (simp add: fm)
  have reach: "lz_pos st + nat bl \<le> 4294967297" if bl3: "3 \<le> bl"
  proof (rule ccontr)
    assume "\<not> lz_pos st + nat bl \<le> 4294967297"
    with p have k: "4294967297 - lz_pos st < nat bl" by arith
    from vb bl3 have bd: "1 \<le> bd" "bd \<le> int (lz_pos st)"
      and eq: "\<forall>k. k < nat bl \<longrightarrow>
                 big_input ! (lz_pos st - nat bd + k) = big_input ! (lz_pos st + k)"
      by (auto simp: valid_best_def)
    from eq k have "big_input ! (lz_pos st - nat bd + (4294967297 - lz_pos st)) =
                    big_input ! (lz_pos st + (4294967297 - lz_pos st))"
      by blast
    moreover have "lz_pos st + (4294967297 - lz_pos st) = 4294967297"
      using p by arith
    moreover have "lz_pos st - nat bd + (4294967297 - lz_pos st) = 4294967297 - nat bd"
      using p bd by arith
    ultimately have e: "big_input ! (4294967297 - nat bd) = big_input ! 4294967297"
      by simp
    have "1 \<le> 4294967297 - nat bd" "4294967297 - nat bd \<le> 4294967296"
      using p bd by arith+
    then have "big_input ! (4294967297 - nat bd) = 0"
      by (simp add: big_nth)
    with e show False by (simp add: big_nth)
  qed
  have l2: "lz_pos (lz77_step big_input st) \<le> 4294967297"
    using reach p by (simp add: lz_pos_lz77_step fm MIN_MATCH_def)
  have l3: "hash_table (lz77_step big_input st) 1024 = 0"
  proof (cases "lz_pos st = 0")
    case True
    from vb True have "bl < 3"
      by (auto simp: valid_best_def)
    then show ?thesis
      using True
      by (simp add: lz77_step_def fm Let_def MIN_MATCH_def big_length
          hash_table_insert_hash big_hash3_ends int32_of_def)
  next
    case False
    have "\<forall>q. lz_pos st \<le> q \<and> q < lz_pos (lz77_step big_input st) \<and> q + 2 < length big_input
            \<longrightarrow> hash3 big_input q \<noteq> 1024"
    proof (intro allI impI)
      fix q assume "lz_pos st \<le> q \<and> q < lz_pos (lz77_step big_input st) \<and>
                    q + 2 < length big_input"
      with False l2 have "1 \<le> q" "q \<le> 4294967296" by arith+
      then show "hash3 big_input q \<noteq> 1024" by (rule big_hash3_middle)
    qed
    from hash_table_lz77_step [OF this] ht False show ?thesis by simp
  qed
  have "lz_pos (lz77_step big_input st) \<noteq> 0"
    using lz77_step_advances [of st big_input] by simp
  with l1 l2 l3 show ?thesis
    by (simp add: big_inv_def)
qed

text \<open>
  The round at position \<open>2 ^ 32 + 1\<close>. The chain starts at position 0, and the distance
  \<open>2 ^ 32 + 1 - 0\<close> is 1 as an \<^verbatim>\<open>int\<close>, which passes the range check; the three bytes at
  position 0 are the three bytes left, so the search returns length 3 at distance 1.
\<close>

lemma big_last_search:
  assumes inv: "big_inv st" and p: "lz_pos st = 4294967297"
  shows "find_match big_input st = (3, 1)"
proof -
  from inv p have ci: "chain_inv big_input 4294967297 (hash_table st) (prev st)"
    and ht: "hash_table st 1024 = 0"
    by (simp_all add: big_inv_def lz_inv_def)
  from ci have "0 < (4294967297 :: nat) \<and> 0 + 2 < length big_input \<longrightarrow> prev st 0 < int 0"
    unfolding chain_inv_def by blast
  then have pv: "prev st 0 < 0"
    by (simp add: big_length)
  have d: "int32_of (int 4294967297 - 0) = 1"
    by (simp add: int32_of_mod)
  have m3: "match_length big_input 0 4294967297 3 3 = 3"
    by (subst match_length.simps) simp
  have m2: "match_length big_input 0 4294967297 3 2 = 3"
    by (subst match_length.simps) (simp add: big_nth m3)
  have m1: "match_length big_input 0 4294967297 3 1 = 3"
    by (subst match_length.simps) (simp add: big_nth m2)
  have m0: "match_length big_input 0 4294967297 3 0 = 3"
    by (subst match_length.simps) (simp add: big_nth m1)
  have s2: "search_chain big_input (prev st) 4294967297 (prev st 0) 1 (3, 1) = (3, 1)"
    using pv by (subst search_chain.simps) simp
  have s1: "search_chain big_input (prev st) 4294967297 0 0 (0, 0) = (3, 1)"
    using d s2 by (subst search_chain.simps)
      (simp add: Let_def MAX_DIST_def MAX_MATCH_def MIN_MATCH_def big_length m0)
  show ?thesis
    by (simp add: find_match_def p big_length MIN_MATCH_def big_hash3_ends ht s1)
qed

lemma big_loop:
  "data = big_input \<Longrightarrow> big_inv st \<Longrightarrow>
   \<exists>toks. tokens (lz77_loop data st) = toks @ [\<lparr>literal = - 1, length_tok = 3, distance = 1\<rparr>] \<and>
     replay [] toks = Some (take 4294967297 big_input) \<and>
     stream_pos toks (length toks) = 4294967297"
proof (induction data st rule: lz77_loop.induct)
  case (1 data st)
  note d = "1.prems"(1) and inv = "1.prems"(2)
  show ?case
  proof (cases "lz_pos st < 4294967297")
    case True
    then have lt: "lz_pos st < length data"
      by (simp add: d big_length)
    have u: "lz77_loop data st = lz77_loop data (lz77_step data st)"
      using lt by (subst lz77_loop.simps) simp
    from big_inv_step [OF inv True] have "big_inv (lz77_step data st)"
      by (simp add: d)
    from "1.IH" [OF lt d this] show ?thesis unfolding u .
  next
    case False
    with inv have p: "lz_pos st = 4294967297"
      by (simp add: big_inv_def)
    from big_last_search [OF inv p] have fm: "find_match big_input st = (3, 1)" .
    have p1: "lz_pos (lz77_step big_input st) = 4294967300"
      by (simp add: lz_pos_lz77_step fm p MIN_MATCH_def)
    have t1: "tokens (lz77_step big_input st) =
                tokens st @ [\<lparr>literal = - 1, length_tok = 3, distance = 1\<rparr>]"
      by (simp add: tokens_lz77_step fm MIN_MATCH_def)
    have "lz77_loop big_input st = lz77_loop big_input (lz77_step big_input st)"
      by (subst lz77_loop.simps) (simp add: p big_length)
    also have "\<dots> = lz77_step big_input st"
      by (subst lz77_loop.simps) (simp add: p1 big_length)
    finally have u: "lz77_loop data st = lz77_step big_input st"
      by (simp add: d)
    from inv p have "replay [] (tokens st) = Some (take 4294967297 big_input)"
      and "stream_pos (tokens st) (length (tokens st)) = 4294967297"
      by (simp_all add: big_inv_def lz_inv_def)
    then show ?thesis
      unfolding u t1 by blast
  qed
qed

lemma big_tokens:
  "\<exists>toks. lz77_compress prev0 big_input =
            toks @ [\<lparr>literal = - 1, length_tok = 3, distance = 1\<rparr>] \<and>
     replay [] toks = Some (take 4294967297 big_input) \<and>
     stream_pos toks (length toks) = 4294967297"
  unfolding lz77_compress_def by (rule big_loop [OF refl big_inv_init])

lemma copy_match_last:
  "xs \<noteq> [] \<Longrightarrow> copy_match xs 1 3 = xs @ [last xs, last xs, last xs]"
  by (simp add: numeral_3_eq_3 nth_append last_conv_nth)

lemma big_copy:
  "copy_match (take 4294967297 big_input) 1 3 = 1 # replicate 4294967296 0 @ [0, 0, 0]"
  unfolding big_take by (subst copy_match_last) simp_all

text \<open>
  C2 fails on the code past the range of the C \<^verbatim>\<open>int\<close>. On \<open>big_input\<close> the last token
  of \<^verbatim>\<open>lz77_compress\<close> is the match of length 3 at distance 1, emitted at position
  \<open>2 ^ 32 + 1\<close>; replaying the stream copies the 0 before that position three times, so
  the replay ends in 0, 0, 0 where the input ends in 1, 0, 0.
\<close>

theorem lz77_replay_past_int_range:
  "replay [] (lz77_compress prev0 big_input) = Some (1 # replicate 4294967296 0 @ [0, 0, 0]) \<and>
   replay [] (lz77_compress prev0 big_input) \<noteq> Some big_input"
proof -
  from big_tokens [of prev0] obtain toks where
    t: "lz77_compress prev0 big_input = toks @ [\<lparr>literal = - 1, length_tok = 3, distance = 1\<rparr>]"
    and r: "replay [] toks = Some (take 4294967297 big_input)"
    by blast
  have "replay [] (lz77_compress prev0 big_input) =
        replay_token (take 4294967297 big_input) \<lparr>literal = - 1, length_tok = 3, distance = 1\<rparr>"
    unfolding t by (simp add: replay_append r)
  also have "\<dots> = Some (copy_match (take 4294967297 big_input) 1 3)"
    by (simp add: replay_token_def big_length)
  finally have "replay [] (lz77_compress prev0 big_input) =
                Some (1 # replicate 4294967296 0 @ [0, 0, 0])"
    by (simp only: big_copy)
  then show ?thesis
    by (simp add: big_input_def)
qed

text \<open>
  C3 fails on the code at the same token. The match \<open>(3, 1)\<close> is emitted at stream
  position \<open>2 ^ 32 + 1\<close>: the search took the candidate at position 0, whose distance
  \<open>2 ^ 32 + 1\<close> is 1 once truncated to \<^verbatim>\<open>int\<close>. Copying 3 bytes from 1 byte before that
  position gives 0, 0, 0, and the input has 1, 0, 0 there.
\<close>

theorem lz77_match_past_int_range:
  "\<exists>toks. lz77_compress prev0 big_input =
            toks @ [\<lparr>literal = - 1, length_tok = 3, distance = 1\<rparr>] \<and>
     stream_pos (lz77_compress prev0 big_input) (length toks) = 4294967297 \<and>
     copy_match (take 4294967297 big_input) 1 3 = take 4294967297 big_input @ [0, 0, 0] \<and>
     take 3 (drop 4294967297 big_input) = [1, 0, 0] \<and>
     \<not> valid_match big_input 4294967297 \<lparr>literal = - 1, length_tok = 3, distance = 1\<rparr>"
proof -
  from big_tokens [of prev0] obtain toks where
    t: "lz77_compress prev0 big_input = toks @ [\<lparr>literal = - 1, length_tok = 3, distance = 1\<rparr>]"
    and s: "stream_pos toks (length toks) = 4294967297"
    by blast
  have s': "stream_pos (lz77_compress prev0 big_input) (length toks) = 4294967297"
    unfolding t using s by (simp add: stream_pos_append)
  have c: "copy_match (take 4294967297 big_input) 1 3 = take 4294967297 big_input @ [0, 0, 0]"
    using big_copy by (simp add: big_take)
  have d: "take 3 (drop 4294967297 big_input) = [1, 0, 0]"
    by (simp only: big_drop) simp
  have "\<not> valid_match big_input 4294967297 \<lparr>literal = - 1, length_tok = 3, distance = 1\<rparr>"
    using c d by (simp add: valid_match_def)
  with t s' c d show ?thesis by blast
qed
section \<open>The hash-chain search: the candidates and the tie-break\<close>
















section \<open>The encoder: how many bits a token stream takes\<close>


lemma get_length_code_loop_extra:
  "get_length_code_loop len i = Some (c, e, v) \<Longrightarrow> 0 \<le> e \<and> e \<le> 5"
proof (induction len i rule: get_length_code_loop.induct)
  case (1 len i)
  have b: "\<forall>x \<in> set length_extra. 0 \<le> x \<and> x \<le> 5"
    by (simp add: length_extra_def)
  show ?case
  proof (cases "i < LENGTH_CODES")
    case False
    with "1.prems" show ?thesis
      by (subst (asm) get_length_code_loop.simps) simp
  next
    case True
    show ?thesis
    proof (cases "length_base ! i \<le> len \<and> (i = LENGTH_CODES - 1 \<or> len < length_base ! (i + 1))")
      case hit: True
      with "1.prems" True have "e = length_extra ! i"
        by (subst (asm) get_length_code_loop.simps) simp
      moreover have "length_extra ! i \<in> set length_extra"
        using True by (intro nth_mem) (simp add: length_extra_def LENGTH_CODES_def)
      ultimately show ?thesis using b by blast
    next
      case miss: False
      with "1.prems" True have "get_length_code_loop len (i + 1) = Some (c, e, v)"
        by (subst (asm) get_length_code_loop.simps) (simp only: if_True if_False)
      from "1.IH" [OF True miss this] show ?thesis .
    qed
  qed
qed

lemma get_distance_code_loop_extra:
  "get_distance_code_loop d i = Some (c, e, v) \<Longrightarrow> 0 \<le> e \<and> e \<le> 13"
proof (induction d i rule: get_distance_code_loop.induct)
  case (1 d i)
  have b: "\<forall>x \<in> set dist_extra. 0 \<le> x \<and> x \<le> 13"
    by (simp add: dist_extra_def)
  show ?case
  proof (cases "i < DIST_CODES")
    case False
    with "1.prems" show ?thesis
      by (subst (asm) get_distance_code_loop.simps) simp
  next
    case True
    show ?thesis
    proof (cases "dist_base ! i \<le> d \<and> (i = DIST_CODES - 1 \<or> d < dist_base ! (i + 1))")
      case hit: True
      with "1.prems" True have "e = dist_extra ! i"
        by (subst (asm) get_distance_code_loop.simps) simp
      moreover have "dist_extra ! i \<in> set dist_extra"
        using True by (intro nth_mem) (simp add: dist_extra_def DIST_CODES_def)
      ultimately show ?thesis using b by blast
    next
      case miss: False
      with "1.prems" True have "get_distance_code_loop d (i + 1) = Some (c, e, v)"
        by (subst (asm) get_distance_code_loop.simps) (simp only: if_True if_False)
      from "1.IH" [OF True miss this] show ?thesis .
    qed
  qed
qed

lemma code_or_zero_length_extra:
  "code_or_zero (get_length_code len) = (c, e, v) \<Longrightarrow> 0 \<le> e \<and> e \<le> 5"
  using get_length_code_loop_extra [of len 0]
  by (cases "get_length_code len") (auto simp: code_or_zero_def get_length_code_def)

lemma code_or_zero_distance_extra:
  "code_or_zero (get_distance_code d) = (c, e, v) \<Longrightarrow> 0 \<le> e \<and> e \<le> 13"
  using get_distance_code_loop_extra [of d 0]
  by (cases "get_distance_code d") (auto simp: code_or_zero_def get_distance_code_def)

text \<open>A buffer position in bits: the bytes stored and the bits pending.\<close>

definition bit_pos :: "BitBuffer \<Rightarrow> nat" where
  "bit_pos bb = 8 * pos bb + count bb"

lemma write_bits_pos:
  assumes "bb_ok bb"
  shows "\<exists>bb'. write_bits bb v n = Some bb' \<and> bb_ok bb' \<and> count bb' < 8 \<and>
           bit_pos bb' = bit_pos bb + n \<and> capacity bb \<le> capacity bb'"
  using write_bits_spec [OF assms, of v n] unfolding bit_pos_def by blast


lemma write_extra_pos:
  assumes "bb_ok bb"
  shows "\<exists>bb'. (if 0 < e then write_bits bb v (nat e) else Some bb) = Some bb' \<and> bb_ok bb' \<and>
           bit_pos bb' = bit_pos bb + nat e \<and> capacity bb \<le> capacity bb'"
proof (cases "0 < e")
  case True
  with write_bits_pos [OF assms, of v "nat e"] show ?thesis by auto
next
  case False
  with assms show ?thesis by simp
qed

text \<open>The bits a token takes at most, against the input bytes it covers.\<close>

lemma encode_token_pos:
  assumes ok: "bb_ok bb"
  shows "\<exists>bb' k. encode_token bb t = Some bb' \<and> bb_ok bb' \<and>
           bit_pos bb' = bit_pos bb + k \<and> k \<le> (if 0 \<le> literal t then 9 else 31) \<and>
           capacity bb \<le> capacity bb'"
proof (cases "0 \<le> literal t")
  case True
  show ?thesis
  proof (cases "literal t \<le> 143")
    case le: True
    from write_bits_pos [OF ok, of "word_of_int (0x30 + literal t)" 8] obtain bb' where
      "encode_token bb t = Some bb'" "bb_ok bb'" "bit_pos bb' = bit_pos bb + 8"
      "capacity bb \<le> capacity bb'"
      using True le by (auto simp: encode_token_def Let_def)
    then show ?thesis using True by (intro exI [of _ bb'] exI [of _ 8]) simp
  next
    case gt: False
    from write_bits_pos [OF ok, of "word_of_int (0x190 + (literal t - 144))" 9] obtain bb' where
      "encode_token bb t = Some bb'" "bb_ok bb'" "bit_pos bb' = bit_pos bb + 9"
      "capacity bb \<le> capacity bb'"
      using True gt by (auto simp: encode_token_def Let_def)
    then show ?thesis using True by (intro exI [of _ bb'] exI [of _ 9]) simp
  qed
next
  case False
  obtain lc le lv where lcode: "code_or_zero (get_length_code (length_tok t)) = (lc, le, lv)"
    by (cases "code_or_zero (get_length_code (length_tok t))")
  obtain dc de dv where dcode: "code_or_zero (get_distance_code (distance t)) = (dc, de, dv)"
    by (cases "code_or_zero (get_distance_code (distance t))")
  from code_or_zero_length_extra [OF lcode] have le: "nat le \<le> 5" by arith
  from code_or_zero_distance_extra [OF dcode] have de: "nat de \<le> 13" by arith
  define w1 where "w1 = (if lc \<le> 279 then write_bits bb (word_of_int (lc - 256)) 7
               else write_bits bb (word_of_int (0xC0 + (lc - 280))) 8)"
  obtain bb1 n1 where 1: "w1 = Some bb1" "bb_ok bb1" "bit_pos bb1 = bit_pos bb + n1" "n1 \<le> 8"
      "capacity bb \<le> capacity bb1"
  proof (cases "lc \<le> 279")
    case True
    from write_bits_pos [OF ok, of "word_of_int (lc - 256)" 7] True that [of _ 7]
    show ?thesis by (auto simp: w1_def)
  next
    case False
    from write_bits_pos [OF ok, of "word_of_int (0xC0 + (lc - 280))" 8] False that [of _ 8]
    show ?thesis by (auto simp: w1_def)
  qed
  from write_extra_pos [OF 1(2), of le "word_of_int lv"] obtain bb2 where
    2: "(if 0 < le then write_bits bb1 (word_of_int lv) (nat le) else Some bb1) = Some bb2"
       "bb_ok bb2" "bit_pos bb2 = bit_pos bb1 + nat le" "capacity bb1 \<le> capacity bb2"
    by blast
  from write_bits_pos [OF 2(2), of "ucast (reverse_dist dc)" 5] obtain bb3 where
    3: "write_bits bb2 (ucast (reverse_dist dc)) 5 = Some bb3" "bb_ok bb3"
       "bit_pos bb3 = bit_pos bb2 + 5" "capacity bb2 \<le> capacity bb3"
    by blast
  from write_extra_pos [OF 3(2), of de "word_of_int dv"] obtain bb4 where
    4: "(if 0 < de then write_bits bb3 (word_of_int dv) (nat de) else Some bb3) = Some bb4"
       "bb_ok bb4" "bit_pos bb4 = bit_pos bb3 + nat de" "capacity bb3 \<le> capacity bb4"
    by blast
  have e: "encode_token bb t = Some bb4"
    using False 1(1) 2(1) 3(1) 4(1)
    by (simp add: encode_token_def lcode dcode w1_def [symmetric])
  have p: "bit_pos bb4 = bit_pos bb + (n1 + nat le + 5 + nat de)"
    using 1(3) 2(3) 3(3) 4(3) by simp
  have k: "n1 + nat le + 5 + nat de \<le> 31"
    using 1(4) le de by simp
  have c: "capacity bb \<le> capacity bb4"
    using 1(5) 2(4) 3(4) 4(4) by simp
  show ?thesis
    using e 4(2) p k c False by (intro exI [of _ bb4] exI [of _ "n1 + nat le + 5 + nat de"]) simp
qed

lemma encode_tokens_pos:
  "bb_ok bb \<Longrightarrow> \<forall>t \<in> set toks. 0 \<le> literal t \<or> 3 \<le> length_tok t \<Longrightarrow>
   \<exists>bb' k. encode_tokens bb toks = Some bb' \<and> bb_ok bb' \<and>
      bit_pos bb' = bit_pos bb + k \<and> 3 * k \<le> 31 * sum_list (map token_span toks) \<and>
      capacity bb \<le> capacity bb'"
proof (induction toks arbitrary: bb)
  case Nil
  then show ?case by simp
next
  case (Cons t toks)
  from encode_token_pos [OF Cons.prems(1), of t] obtain bb1 k1 where
    1: "encode_token bb t = Some bb1" "bb_ok bb1" "bit_pos bb1 = bit_pos bb + k1"
       "k1 \<le> (if 0 \<le> literal t then 9 else 31)" "capacity bb \<le> capacity bb1"
    by blast
  from Cons.prems(2) have t: "0 \<le> literal t \<or> 3 \<le> length_tok t"
    and rest: "\<forall>t \<in> set toks. 0 \<le> literal t \<or> 3 \<le> length_tok t"
    by simp_all
  from Cons.IH [OF 1(2) rest] obtain bb' k where
    2: "encode_tokens bb1 toks = Some bb'" "bb_ok bb'" "bit_pos bb' = bit_pos bb1 + k"
       "3 * k \<le> 31 * sum_list (map token_span toks)" "capacity bb1 \<le> capacity bb'"
    by blast
  have s: "3 * k1 \<le> 31 * token_span t"
  proof (cases "0 \<le> literal t")
    case True
    with 1(4) show ?thesis by (simp add: token_span_def)
  next
    case False
    with t have "3 \<le> nat (length_tok t)" by simp
    with False 1(4) show ?thesis by (simp add: token_span_def)
  qed
  have a: "encode_tokens bb (t # toks) = Some bb'"
    by (simp add: 1(1) 2(1))
  have b: "bit_pos bb' = bit_pos bb + (k1 + k)"
    using 1(3) 2(3) by simp
  have c: "3 * (k1 + k) \<le> 31 * sum_list (map token_span (t # toks))"
    using s 2(4) by simp
  have d: "capacity bb \<le> capacity bb'"
    using 1(5) 2(5) by simp
  show ?case
    using a 2(2) b c d by blast
qed


lemma input_tokens_inv:
  "\<forall>t \<in> set (input_tokens prev0 S). 0 \<le> literal t \<or> 3 \<le> length_tok t"
  "sum_list (map token_span (input_tokens prev0 S)) = length S"
  using lz77_compress_spans [of prev0 S] by (simp_all add: input_tokens_def)

lemma deflate_packed_pos:
  assumes toks: "\<forall>t \<in> set toks. 0 \<le> literal t \<or> 3 \<le> length_tok t"
    and n: "sum_list (map token_span toks) = n"
  shows "\<exists>bb4. deflate_packed mem0 n toks = Some bb4 \<and> bb_ok bb4 \<and>
           3 * bit_pos bb4 \<le> 30 + 31 * n \<and>
           (if 1024 < n * 2 then n * 2 else 1024) \<le> capacity bb4"
proof -
  define cap where "cap = (if 1024 < n * 2 then n * 2 else 1024)"
  define bb where "bb = init_bitbuffer mem0 cap"
  have ok: "bb_ok bb" and p0: "bit_pos bb = 0" and c0: "capacity bb = cap"
    by (simp_all add: bb_def init_bitbuffer_def bb_ok_def bit_pos_def cap_def)
  from write_bits_pos [OF ok, of 1 1] obtain bb1 where
    1: "write_bits bb 1 1 = Some bb1" "bb_ok bb1" "bit_pos bb1 = bit_pos bb + 1"
       "capacity bb \<le> capacity bb1"
    by blast
  from write_bits_pos [OF 1(2), of 1 2] obtain bb2 where
    2: "write_bits bb1 1 2 = Some bb2" "bb_ok bb2" "bit_pos bb2 = bit_pos bb1 + 2"
       "capacity bb1 \<le> capacity bb2"
    by blast
  from encode_tokens_pos [OF 2(2) toks] obtain bb3 k where
    3: "encode_tokens bb2 toks = Some bb3" "bb_ok bb3" "bit_pos bb3 = bit_pos bb2 + k"
       "3 * k \<le> 31 * sum_list (map token_span toks)" "capacity bb2 \<le> capacity bb3"
    by blast
  from write_bits_pos [OF 3(2), of 0 7] obtain bb4 where
    4: "write_bits bb3 0 7 = Some bb4" "bb_ok bb4" "bit_pos bb4 = bit_pos bb3 + 7"
       "capacity bb3 \<le> capacity bb4"
    by blast
  have d: "deflate_packed mem0 n toks = Some bb4"
    using 1(1) 2(1) 3(1) 4(1) unfolding deflate_packed_def Let_def bb_def cap_def
    by (simp split: if_splits)
  have p: "3 * bit_pos bb4 \<le> 30 + 31 * n"
    using 1(3) 2(3) 3(3,4) 4(3) p0 n by simp
  have c: "cap \<le> capacity bb4"
    using 1(4) 2(4) 3(5) 4(4) c0 by simp
  show ?thesis
    using d 4(2) p c unfolding cap_def by blast
qed

lemma pack_sequence_bound:
  "\<exists>bb4. deflate_packed mem0 (length S) (input_tokens prev0 S) = Some bb4 \<and>
           pos bb4 < max (2 * length S) 1024 \<and> max (2 * length S) 1024 \<le> capacity bb4"
proof -
  have toks: "\<forall>t \<in> set (input_tokens prev0 S). 0 \<le> literal t \<or> 3 \<le> length_tok t"
    and n: "sum_list (map token_span (input_tokens prev0 S)) = length S"
    by (rule input_tokens_inv)+
  from deflate_packed_pos [OF toks n, of mem0] obtain bb4 where
    4: "deflate_packed mem0 (length S) (input_tokens prev0 S) = Some bb4"
       "3 * bit_pos bb4 \<le> 30 + 31 * length S"
       "(if 1024 < length S * 2 then length S * 2 else 1024) \<le> capacity bb4"
    by blast
  have c: "max (2 * length S) 1024 \<le> capacity bb4"
    using 4(3) by (simp split: if_splits)
  have "24 * pos bb4 \<le> 3 * bit_pos bb4"
    by (simp add: bit_pos_def)
  with 4(2) have "24 * pos bb4 \<le> 30 + 31 * length S"
    by linarith
  then have p: "pos bb4 < max (2 * length S) 1024"
    by (simp add: max_def)
  with 4(1) c show ?thesis by blast
qed

lemma compress_buffer_returns: "\<exists>bb. compress_buffer prev0 mem0 S = Some bb"
proof -
  from pack_sequence_bound [of mem0 S prev0] obtain bb4 where
    4: "deflate_packed mem0 (length S) (input_tokens prev0 S) = Some bb4"
       "pos bb4 < max (2 * length S) 1024" "max (2 * length S) 1024 \<le> capacity bb4"
    by blast
  then have "pos bb4 < capacity bb4" by linarith
  then obtain bb5 where "flush_bits bb4 = Some bb5"
    using flush_bits_Some [of bb4] by blast
  with 4(1) show ?thesis
    by (simp add: compress_buffer_def deflate_block_def)
qed


section \<open>A reference decoder for one fixed-Huffman block\<close>

text \<open>
  The decoder of RFC 1951 for the streams the compressor is meant to write: one block
  with \<^verbatim>\<open>BFINAL = 1\<close> and \<^verbatim>\<open>BTYPE = 01\<close>. Bytes are read from their least significant
  bit; header fields and extra bits are numbers stored least significant bit first
  (\<open>lsb_value\<close>); Huffman codes are stored starting with their most significant bit
  (\<open>msb_code\<close>), section 3.1.1 of the RFC. Any other stream gives \<open>None\<close>.
\<close>

definition lsb_value :: "bool list \<Rightarrow> nat" where
  "lsb_value bs = foldr (\<lambda>b a. (if b then 1 else 0) + 2 * a) bs 0"

definition msb_code :: "bool list \<Rightarrow> nat" where
  "msb_code bs = foldl (\<lambda>a b. 2 * a + (if b then 1 else 0)) 0 bs"

text \<open>
  The fixed literal/length code of section 3.2.6: codes \<open>0000000\<close> to \<open>0010111\<close> (7 bits)
  are the symbols 256 to 279, \<open>00110000\<close> to \<open>10111111\<close> (8 bits) the literals 0 to 143,
  \<open>11000000\<close> to \<open>11000111\<close> (8 bits) the symbols 280 to 287, and \<open>110010000\<close> to
  \<open>111111111\<close> (9 bits) the literals 144 to 255. The result is the symbol and the number
  of bits of its code.
\<close>

definition fixed_symbol :: "bool list \<Rightarrow> (nat \<times> nat) option" where
  "fixed_symbol bs =
     (if length bs < 7 then None
      else if msb_code (take 7 bs) \<le> 23 then Some (256 + msb_code (take 7 bs), 7)
      else if length bs < 8 then None
      else if msb_code (take 8 bs) \<le> 191 then Some (msb_code (take 8 bs) - 48, 8)
      else if msb_code (take 8 bs) \<le> 199 then Some (280 + (msb_code (take 8 bs) - 192), 8)
      else if length bs < 9 then None
      else Some (144 + (msb_code (take 9 bs) - 400), 9))"

lemma fixed_symbol_consumes:
  "fixed_symbol bs = Some (s, k) \<Longrightarrow> 0 < k \<and> k \<le> length bs"
  by (auto simp: fixed_symbol_def split: if_splits)

text \<open>
  The symbols of the block, until symbol 256: a literal is appended; a length symbol
  257 to 285 is followed by its extra bits, the 5-bit distance code and its extra bits,
  and the match is copied from the output produced so far. The length and distance
  tables are those of section 3.2.5.
\<close>

function inflate_symbols :: "bool list \<Rightarrow> byte list \<Rightarrow> byte list option" where
  "inflate_symbols bs out =
     (case fixed_symbol bs of
        None \<Rightarrow> None
      | Some (s, k) \<Rightarrow>
          if s < 256 then inflate_symbols (drop k bs) (out @ [word_of_nat s])
          else if s = 256 then Some out
          else if 285 < s then None
          else
            (let eb = nat (length_extra ! (s - 257));
                 r1 = drop k bs;
                 len = nat (length_base ! (s - 257)) + lsb_value (take eb r1);
                 r2 = drop eb r1;
                 dc = msb_code (take 5 r2);
                 r3 = drop 5 r2;
                 db = nat (dist_extra ! dc);
                 dist = nat (dist_base ! dc) + lsb_value (take db r3)
             in if length r1 < eb + 5 \<or> 29 < dc \<or> length r3 < db \<or> length out < dist
                then None
                else inflate_symbols (drop db r3) (copy_match out dist len)))"
  by pat_completeness auto
termination
proof (relation "measure (\<lambda>(bs, out). length bs)")
  show "wf (measure (\<lambda>(bs, out). length bs))" by simp
next
  fix bs :: "bool list" and out :: "byte list" and x2 x y
  assume "fixed_symbol bs = Some x2" "(x, y) = x2"
  then have "0 < y \<and> y \<le> length bs"
    using fixed_symbol_consumes [of bs x y] by simp
  then show "((drop y bs, out @ [word_of_nat x]), (bs, out)) \<in> measure (\<lambda>(bs, out). length bs)"
    by (simp, arith)
next
  fix bs :: "bool list" and out :: "byte list" and x2 x y xa xb xc xd xe xf xg xh
  assume "fixed_symbol bs = Some x2" "(x, y) = x2"
  then have "0 < y \<and> y \<le> length bs"
    using fixed_symbol_consumes [of bs x y] by simp
  moreover assume "xb = drop y bs" "xd = drop xa xb" "xf = drop 5 xd"
  ultimately show "((drop xg xf, copy_match out xh xc), (bs, out)) \<in> measure (\<lambda>(bs, out). length bs)"
    by (simp, arith)
qed

declare inflate_symbols.simps [simp del]

text \<open>
  The block header, then the symbols: the first bit is \<^verbatim>\<open>BFINAL\<close>, the next two are
  \<^verbatim>\<open>BTYPE\<close> as a 2-bit number.
\<close>

definition rfc_inflate :: "byte list \<Rightarrow> byte list option" where
  "rfc_inflate bytes =
     (let bs = bytes_bits bytes
      in if length bs < 3 then None
         else if \<not> bs ! 0 then None
         else if lsb_value (take 2 (drop 1 bs)) \<noteq> 1 then None
         else inflate_symbols (drop 3 bs) [])"


text \<open>
  The decoder on streams written by zlib (raw deflate, fixed codes): the empty input, one
  literal below 144, literals from 144 with a match that runs into its own output, and
  six literals with a match at distance 6.
\<close>

lemma rfc_inflate_zlib_streams:
  "rfc_inflate [3, 0] = Some []"
  "rfc_inflate [115, 4, 0] = Some [65]"
  "rfc_inflate [59, 113, 2, 6, 0] = Some [200, 200, 200, 200, 200, 200, 200, 200, 200, 200]"
  "rfc_inflate [115, 116, 114, 118, 113, 117, 115, 4, 147, 0] = Some abcdef2"
  by code_simp+

lemma compress_bytes_A: "compress_bytes prev0 mem0 [0x41] = Some [0x8B, 0x03, 0x00]"
proof -
  have t: "input_tokens prev0 [0x41] = [\<lparr>literal = 65, length_tok = 0, distance = 0\<rparr>]"
    by (simp add: input_tokens_def lz77_compress_def lz77_init_def lz77_loop.simps lz77_step_def
        find_match_def MIN_MATCH_def Let_def)
  show ?thesis
    by (simp add: compress_bytes_def compress_buffer_def deflate_block_def deflate_packed_def t
        encode_token_def init_bitbuffer_def write_bits_def write_bits_loop.simps store_byte_def
        flush_bits_def written_def Let_def)
qed

text \<open>
  C1 fails on the code. For the one-byte input \<open>A\<close> (0x41) the compressor writes
  \<open>8B 03 00\<close>: after the header it packs the literal's code \<open>0x30 + 0x41 = 01110001\<close> from
  its least significant bit, where the format stores a Huffman code from its most
  significant bit. The decoder reads the code \<open>10001110\<close> there, the literal \<open>^\<close> (0x5E),
  and then the end of the block. The stream that decodes to \<open>A\<close> is \<open>73 04 00\<close>.
\<close>

theorem literal_code_not_reversed:
  "compress_bytes prev0 mem0 [0x41] = Some [0x8B, 0x03, 0x00] \<and>
   rfc_inflate [0x8B, 0x03, 0x00] = Some [0x5E] \<and>
   rfc_inflate [0x73, 0x04, 0x00] = Some [0x41]"
proof -
  have a: "rfc_inflate [0x8B, 0x03, 0x00] = Some [0x5E]"
    by code_simp
  have b: "rfc_inflate [0x73, 0x04, 0x00] = Some [0x41]"
    by code_simp
  show ?thesis
    using compress_bytes_A [of prev0 mem0] a b by blast
qed

section \<open>The command: what the exit code reports\<close>


text \<open>
  The exit codes the code does give: 1 with no output file when the input cannot be
  opened, is not read in full, or the output cannot be opened; otherwise 0, with as many
  of the compressed bytes in the file as the write stored.
\<close>

lemma deflate_compress_exit_codes:
  shows "\<not> input_opens w \<Longrightarrow> deflate_compress prev0 mem0 w = Some (1, None)"
    and "input_opens w \<Longrightarrow> 0 < length (input_file w) \<Longrightarrow> fread_count w \<noteq> length (input_file w) \<Longrightarrow>
         deflate_compress prev0 mem0 w = Some (1, None)"
    and "input_opens w \<Longrightarrow> fread_count w = length (input_file w) \<Longrightarrow> \<not> output_opens w \<Longrightarrow>
         deflate_compress prev0 mem0 w = Some (1, None)"
    and "input_opens w \<Longrightarrow> fread_count w = length (input_file w) \<Longrightarrow> output_opens w \<Longrightarrow>
         \<exists>bytes. compress_bytes prev0 mem0 (input_file w) = Some bytes \<and>
           deflate_compress prev0 mem0 w = Some (0, Some (take (fwrite_count w) bytes))"
proof -
  from compress_buffer_returns [of prev0 mem0 "input_file w"] obtain bb where
    bb: "compress_buffer prev0 mem0 (input_file w) = Some bb"
    by blast
  show "\<not> input_opens w \<Longrightarrow> deflate_compress prev0 mem0 w = Some (1, None)"
    by (simp add: deflate_compress_def)
  show "input_opens w \<Longrightarrow> 0 < length (input_file w) \<Longrightarrow> fread_count w \<noteq> length (input_file w) \<Longrightarrow>
         deflate_compress prev0 mem0 w = Some (1, None)"
    by (simp add: deflate_compress_def)
  show "input_opens w \<Longrightarrow> fread_count w = length (input_file w) \<Longrightarrow> \<not> output_opens w \<Longrightarrow>
         deflate_compress prev0 mem0 w = Some (1, None)"
    by (simp add: deflate_compress_def bb)
  show "input_opens w \<Longrightarrow> fread_count w = length (input_file w) \<Longrightarrow> output_opens w \<Longrightarrow>
         \<exists>bytes. compress_bytes prev0 mem0 (input_file w) = Some bytes \<and>
           deflate_compress prev0 mem0 w = Some (0, Some (take (fwrite_count w) bytes))"
    by (simp add: deflate_compress_def bb compress_bytes_def)
qed

text \<open>
  C9 fails on the code where the output file cannot be written. With the input \<open>A\<close>
  read in full and the output file opened, a write that stores none of the three
  compressed bytes still ends with exit code 0: \<^verbatim>\<open>deflate_compress\<close> compares the result
  of \<^verbatim>\<open>fread\<close> with the size but never looks at the result of \<^verbatim>\<open>fwrite\<close>.
\<close>

theorem fwrite_result_unchecked:
  "deflate_compress prev0 mem0
     \<lparr>input_opens = True, input_file = [0x41], fread_count = 1,
      output_opens = True, fwrite_count = 0\<rparr> = Some (0, Some []) \<and>
   compress_bytes prev0 mem0 [0x41] = Some [0x8B, 0x03, 0x00]"
proof -
  from compress_bytes_A [of prev0 mem0] obtain bb where
    "compress_buffer prev0 mem0 [0x41] = Some bb"
    by (auto simp: compress_bytes_def)
  then have "deflate_compress prev0 mem0
     \<lparr>input_opens = True, input_file = [0x41], fread_count = 1,
      output_opens = True, fwrite_count = 0\<rparr> = Some (0, Some [])"
    by (simp add: deflate_compress_def)
  with compress_bytes_A [of prev0 mem0] show ?thesis by blast
qed

end
